theory Spec2Isabelle
  imports Main "HOL-Library.Word"
begin

unbundle bit_operations_syntax

section \<open>The machine: words, the heap region and checked memory access\<close>

text \<open>
  The allocator of \<^verbatim>\<open>mm.c\<close> runs on a 64-bit machine: \<^verbatim>\<open>word_t\<close> is
  \<^verbatim>\<open>uint64_t\<close>, \<^verbatim>\<open>size_t\<close> and pointers are 64 bits wide, and all of
  them wrap around modulo \<open>2^64\<close>.
\<close>

type_synonym word_t = "64 word"
type_synonym size_t = "64 word"
type_synonym addr = "64 word"

text \<open>
  What C leaves undefined is a value of the model: reading or writing a \<^verbatim>\<open>word_t\<close>
  through a pointer that is outside the heap region or not a multiple of 8 is
  \<open>BadAccess\<close>, and an integer division by zero is \<open>DivByZero\<close>.
\<close>

datatype fault = BadAccess addr | DivByZero

text \<open>
  The state: the memory (one 64-bit cell at each byte address that is a multiple of 8,
  little endian), the three variables of the heap region kept by \<^verbatim>\<open>memlib\<close>, and
  the three global variables of \<^verbatim>\<open>mm.c\<close>.
\<close>

record heap =
  mem :: "addr \<Rightarrow> word_t"
  mem_start :: addr
  mem_brk :: addr
  mem_max_addr :: addr
  free_root :: addr
  prologue :: addr
  counter_global :: int

definition rbind :: "fault + 'a \<Rightarrow> ('a \<Rightarrow> fault + 'b) \<Rightarrow> fault + 'b" where
  "rbind m f = (case m of Inl e \<Rightarrow> Inl e | Inr x \<Rightarrow> f x)"

definition valid :: "heap \<Rightarrow> addr \<Rightarrow> bool" where
  "valid s a \<longleftrightarrow> a AND 7 = 0 \<and> mem_start s \<le> a \<and> unat a + 8 \<le> unat (mem_brk s)"

definition load :: "heap \<Rightarrow> addr \<Rightarrow> fault + word_t" where
  "load s a = (if valid s a then Inr (mem s a) else Inl (BadAccess a))"

definition store :: "heap \<Rightarrow> addr \<Rightarrow> word_t \<Rightarrow> fault + heap" where
  "store s a v = (if valid s a then Inr (s\<lparr>mem := (mem s)(a := v)\<rparr>) else Inl (BadAccess a))"

subsection \<open>The heap region (memlib)\<close>

text \<open>
  Modelled from the spec: \<^verbatim>\<open>memlib.c\<close> is not part of the sources.
  \<open>grow_heap(extra_bytes)\<close> extends the heap by \<open>extra_bytes\<close> and returns the
  previous top address, or fails with a distinct sentinel (\<^verbatim>\<open>(void *)-1\<close> in
  \<^verbatim>\<open>mm.c\<close>) when the address space is exhausted; \<open>heap_low()\<close> and
  \<open>heap_high()\<close> are the current bounds, the high one being the last byte of the heap.
\<close>

definition mem_sbrk :: "size_t \<Rightarrow> heap \<Rightarrow> addr \<times> heap" where
  "mem_sbrk incr s =
     (if unat (mem_brk s) + unat incr \<le> unat (mem_max_addr s)
      then (mem_brk s, s\<lparr>mem_brk := mem_brk s + incr\<rparr>)
      else (- 1, s))"

definition mem_heap_lo :: "heap \<Rightarrow> addr" where
  "mem_heap_lo s = mem_start s"

definition mem_heap_hi :: "heap \<Rightarrow> addr" where
  "mem_heap_hi s = mem_brk s - 1"

text \<open>
  Modelled from the spec: the byte-copy and zero-fill primitives (\<^verbatim>\<open>memcpy\<close>,
  \<^verbatim>\<open>memset\<close>) are external. \<open>memset p c n\<close> sets the \<open>n\<close> bytes from \<open>p\<close> to
  the byte \<open>c\<close>; \<open>memcpy dst src n\<close> copies \<open>n\<close> bytes. On the cells of the model,
  a cell that the range covers only in part keeps its high bytes.
\<close>

definition range_ok :: "heap \<Rightarrow> addr \<Rightarrow> size_t \<Rightarrow> bool" where
  "range_ok s p n \<longleftrightarrow>
     n = 0 \<or> (p AND 7 = 0 \<and> mem_start s \<le> p \<and> unat p + unat n \<le> unat (mem_brk s))"

definition blend :: "nat \<Rightarrow> word_t \<Rightarrow> word_t \<Rightarrow> word_t" where
  "blend r new old = (if 8 \<le> r then new else (new AND mask (8 * r)) OR (old AND NOT (mask (8 * r))))"

definition memset :: "addr \<Rightarrow> 8 word \<Rightarrow> size_t \<Rightarrow> heap \<Rightarrow> fault + heap" where
  "memset p c n s =
     (if range_ok s p n
      then Inr (s\<lparr>mem := (\<lambda>x. if x AND 7 = 0 \<and> p \<le> x \<and> x - p < n
                              then blend (unat (n - (x - p))) (ucast c * 0x0101010101010101) (mem s x)
                              else mem s x)\<rparr>)
      else Inl (BadAccess p))"

definition memcpy :: "addr \<Rightarrow> addr \<Rightarrow> size_t \<Rightarrow> heap \<Rightarrow> fault + heap" where
  "memcpy dst src n s =
     (if \<not> range_ok s src n then Inl (BadAccess src)
      else if \<not> range_ok s dst n then Inl (BadAccess dst)
      else Inr (s\<lparr>mem := (\<lambda>x. if x AND 7 = 0 \<and> dst \<le> x \<and> x - dst < n
                              then blend (unat (n - (x - dst))) (mem s (src + (x - dst))) (mem s x)
                              else mem s x)\<rparr>))"

section \<open>The allocator of mm.c\<close>

subsection \<open>Global constants\<close>

definition wsize :: size_t where "wsize = 8"
definition dsize :: size_t where "dsize = 2 * wsize"
definition min_block_size :: size_t where "min_block_size = 2 * dsize"
definition chunksize :: size_t where "chunksize = push_bit 12 1"
definition alloc_mask :: word_t where "alloc_mask = 0x1"
definition size_mask :: word_t where "size_mask = NOT 0xF"
definition ALIGNMENT :: size_t where "ALIGNMENT = 16"

subsection \<open>Low-level and block operations\<close>

definition pack :: "size_t \<Rightarrow> bool \<Rightarrow> word_t" where
  "pack sz is_allocated = (if is_allocated then sz OR alloc_mask else sz)"

text \<open>\<^verbatim>\<open>round_up\<close> is only ever called with \<open>n = dsize\<close>.\<close>

definition round_up :: "size_t \<Rightarrow> size_t \<Rightarrow> size_t" where
  "round_up sz n = n * ((sz + (n - 1)) div n)"

definition max_size :: "size_t \<Rightarrow> size_t \<Rightarrow> size_t" where
  "max_size x y = (if x > y then x else y)"

definition in_heap :: "heap \<Rightarrow> addr \<Rightarrow> bool" where
  "in_heap s p \<longleftrightarrow> p \<le> mem_heap_hi s \<and> p \<ge> mem_heap_lo s"

definition align :: "size_t \<Rightarrow> size_t" where
  "align x = ALIGNMENT * ((x + ALIGNMENT - 1) div ALIGNMENT)"

definition aligned :: "addr \<Rightarrow> bool" where
  "aligned p \<longleftrightarrow> align p = p"

definition extract_size :: "word_t \<Rightarrow> size_t" where
  "extract_size w = w AND size_mask"

definition extract_alloc :: "word_t \<Rightarrow> bool" where
  "extract_alloc w \<longleftrightarrow> w AND alloc_mask \<noteq> 0"

text \<open>
  A \<^verbatim>\<open>block_t\<close> is the header word followed by the content; the content of a free
  block holds the two list pointers, \<^verbatim>\<open>prev\<close> at offset 8 and \<^verbatim>\<open>next\<close> at
  offset 16.
\<close>

definition header_to_payload :: "addr \<Rightarrow> addr" where
  "header_to_payload block = block + 8"

definition payload_to_header :: "addr \<Rightarrow> addr" where
  "payload_to_header bp = bp - 8"

definition prev_field :: "addr \<Rightarrow> addr" where
  "prev_field block = block + 8"

definition next_field :: "addr \<Rightarrow> addr" where
  "next_field block = block + 16"

definition get_size :: "heap \<Rightarrow> addr \<Rightarrow> fault + size_t" where
  "get_size s block = rbind (load s block) (\<lambda>w. Inr (extract_size w))"

definition get_alloc :: "heap \<Rightarrow> addr \<Rightarrow> fault + bool" where
  "get_alloc s block = rbind (load s block) (\<lambda>w. Inr (extract_alloc w))"

definition find_prev_footer :: "addr \<Rightarrow> addr" where
  "find_prev_footer block = block - 8"

definition get_payload_size :: "heap \<Rightarrow> addr \<Rightarrow> fault + size_t" where
  "get_payload_size s block = rbind (get_size s block) (\<lambda>asize. Inr (asize - dsize))"

definition get_next_free :: "heap \<Rightarrow> addr \<Rightarrow> fault + addr" where
  "get_next_free s cur = load s (next_field cur)"

definition get_prev_free :: "heap \<Rightarrow> addr \<Rightarrow> fault + addr" where
  "get_prev_free s cur = load s (prev_field cur)"

definition get_next_block :: "heap \<Rightarrow> addr \<Rightarrow> fault + addr" where
  "get_next_block s cur = rbind (get_size s cur) (\<lambda>sz. Inr (cur + sz))"

definition get_prev_block :: "heap \<Rightarrow> addr \<Rightarrow> fault + addr" where
  "get_prev_block s cur =
     rbind (load s (find_prev_footer cur)) (\<lambda>w. Inr (cur - extract_size w))"

definition write_block :: "addr \<Rightarrow> size_t \<Rightarrow> bool \<Rightarrow> heap \<Rightarrow> fault + heap" where
  "write_block block sz is_allocated s =
     rbind (store s block (pack sz is_allocated)) (\<lambda>s1.
       if block = free_root s1 then Inr s1
       else rbind (get_size s1 block) (\<lambda>gs.
         store s1 (header_to_payload block + gs - dsize) (pack sz is_allocated)))"

subsection \<open>The free list\<close>

definition remove_from_list :: "addr \<Rightarrow> heap \<Rightarrow> fault + heap" where
  "remove_from_list target s =
     rbind (load s (prev_field target)) (\<lambda>tmp_prev.
     rbind (load s (next_field target)) (\<lambda>tmp_next.
     rbind (store s (next_field tmp_prev) tmp_next) (\<lambda>s1.
     rbind (store s1 (prev_field tmp_next) tmp_prev) (\<lambda>s2.
       Inr (s2\<lparr>counter_global := counter_global s2 - 1\<rparr>)))))"

definition add_to_list :: "addr \<Rightarrow> heap \<Rightarrow> fault + heap" where
  "add_to_list new s =
     rbind (load s (prev_field (free_root s))) (\<lambda>old_tail.
     rbind (store s (next_field old_tail) new) (\<lambda>s1.
     rbind (store s1 (next_field new) (free_root s1)) (\<lambda>s2.
     rbind (store s2 (prev_field (free_root s2)) new) (\<lambda>s3.
     rbind (store s3 (prev_field new) old_tail) (\<lambda>s4.
       Inr (s4\<lparr>counter_global := counter_global s4 + 1\<rparr>))))))"

text \<open>
  The loop of \<^verbatim>\<open>find_fit\<close> follows the \<^verbatim>\<open>next\<close> pointers until it meets a block
  of size 0; on a damaged list it may run forever, which is the value \<open>None\<close>.
\<close>

partial_function (option) find_fit_loop :: "heap \<Rightarrow> size_t \<Rightarrow> addr \<Rightarrow> (fault + addr) option" where
  "find_fit_loop s asize block =
     (case get_size s block of
        Inl e \<Rightarrow> Some (Inl e)
      | Inr sz \<Rightarrow>
          if sz > 0 then
            (if asize \<le> sz then Some (Inr block)
             else (case get_next_free s block of
                     Inl e \<Rightarrow> Some (Inl e)
                   | Inr nxt \<Rightarrow> find_fit_loop s asize nxt))
          else Some (Inr 0))"

definition find_fit :: "heap \<Rightarrow> size_t \<Rightarrow> (fault + addr) option" where
  "find_fit s asize =
     (case get_next_free s (free_root s) of
        Inl e \<Rightarrow> Some (Inl e)
      | Inr block \<Rightarrow> find_fit_loop s asize block)"

subsection \<open>Extending, placing, coalescing\<close>

definition extend_heap :: "size_t \<Rightarrow> heap \<Rightarrow> fault + addr \<times> heap" where
  "extend_heap sz s =
     (let sz = round_up sz dsize;
          (bp, s1) = mem_sbrk sz s
      in if bp = - 1 then Inr (0, s1)
         else rbind (write_block bp sz False s1) (\<lambda>s2.
              rbind (add_to_list bp s2) (\<lambda>s3. Inr (bp, s3))))"

definition coalesce :: "addr \<Rightarrow> heap \<Rightarrow> fault + addr \<times> heap" where
  "coalesce block s =
     rbind (get_next_block s block) (\<lambda>next_block.
     rbind (get_prev_block s block) (\<lambda>prev_block.
     rbind (if in_heap s prev_block \<and> prev_block \<noteq> 0
            then rbind (load s (find_prev_footer block)) (\<lambda>w. Inr (extract_alloc w))
            else Inr True) (\<lambda>prev_alloc.
     rbind (if in_heap s next_block \<and> next_block \<noteq> 0
            then get_alloc s next_block
            else Inr True) (\<lambda>next_alloc.
     rbind (get_size s block) (\<lambda>sz.
       if prev_alloc \<and> next_alloc then
         rbind (add_to_list block s) (\<lambda>s1. Inr (block, s1))
       else if prev_alloc \<and> \<not> next_alloc then
         rbind (remove_from_list next_block s) (\<lambda>s1.
         rbind (get_size s1 next_block) (\<lambda>nsz.
         rbind (write_block block (sz + nsz) False s1) (\<lambda>s2.
         rbind (add_to_list block s2) (\<lambda>s3. Inr (block, s3)))))
       else if \<not> prev_alloc \<and> next_alloc then
         rbind (remove_from_list prev_block s) (\<lambda>s1.
         rbind (get_size s1 prev_block) (\<lambda>psz.
         rbind (write_block prev_block (sz + psz) False s1) (\<lambda>s2.
         rbind (add_to_list prev_block s2) (\<lambda>s3. Inr (prev_block, s3)))))
       else
         rbind (remove_from_list prev_block s) (\<lambda>s1.
         rbind (remove_from_list next_block s1) (\<lambda>s2.
         rbind (get_size s2 next_block) (\<lambda>nsz.
         rbind (get_size s2 prev_block) (\<lambda>psz.
         rbind (write_block prev_block (sz + (nsz + psz)) False s2) (\<lambda>s3.
         rbind (add_to_list prev_block s3) (\<lambda>s4. Inr (prev_block, s4))))))))))))"

definition place :: "addr \<Rightarrow> size_t \<Rightarrow> heap \<Rightarrow> fault + heap" where
  "place block asize s =
     rbind (get_size s block) (\<lambda>block_size.
       if block_size - asize \<ge> min_block_size then
         rbind (remove_from_list block s) (\<lambda>s1.
         rbind (write_block block asize True s1) (\<lambda>s2.
         rbind (get_next_block s2 block) (\<lambda>new_block.
           if new_block = 0 then Inr s2
           else rbind (write_block new_block (block_size - asize) False s2) (\<lambda>s3.
                add_to_list new_block s3))))
       else
         rbind (remove_from_list block s) (\<lambda>s1.
         write_block block block_size True s1))"

subsection \<open>The public operations\<close>

definition mm_init :: "heap \<Rightarrow> fault + bool \<times> heap" where
  "mm_init s =
     (let (start, s1) = mem_sbrk (5 * wsize) s
      in if start = - 1 then Inr (False, s1)
         else rbind (store s1 start (pack 0 True)) (\<lambda>s2.
              rbind (store s2 (start + 8) (pack 0 True)) (\<lambda>s3.
              rbind (store s3 (start + 32) (pack 0 True)) (\<lambda>s4.
              let s5 = s4\<lparr>prologue := start, free_root := start + 8\<rparr> in
              rbind (store s5 (prev_field (free_root s5)) (free_root s5)) (\<lambda>s6.
              rbind (store s6 (next_field (free_root s6)) (free_root s6)) (\<lambda>s7.
              rbind (extend_heap chunksize s7) (\<lambda>(b, s8).
                if b = 0 then Inr (False, s8) else Inr (True, s8))))))))"

definition malloc :: "size_t \<Rightarrow> heap \<Rightarrow> (fault + addr \<times> heap) option" where
  "malloc sz s =
     (case (if free_root s = 0 then rbind (mm_init s) (\<lambda>(ok, s'). Inr s') else Inr s) of
        Inl e \<Rightarrow> Some (Inl e)
      | Inr s0 \<Rightarrow>
          if sz \<le> 0 then Some (Inr (0, s0))
          else
            let asize = round_up (sz + dsize) dsize in
            (case find_fit s0 asize of
               None \<Rightarrow> None
             | Some (Inl e) \<Rightarrow> Some (Inl e)
             | Some (Inr found) \<Rightarrow>
                 Some (rbind (if found = 0
                              then extend_heap (max_size asize chunksize) s0
                              else Inr (found, s0)) (\<lambda>(block, s1).
                         if block = 0 then Inr (0, s1)
                         else rbind (place block asize s1) (\<lambda>s2.
                                Inr (header_to_payload block, s2))))))"

definition free :: "addr \<Rightarrow> heap \<Rightarrow> fault + heap" where
  "free ptr s =
     (let block = payload_to_header ptr in
      rbind (get_size s block) (\<lambda>sz.
      rbind (write_block block sz False s) (\<lambda>s1.
      rbind (coalesce block s1) (\<lambda>(b, s2). Inr s2))))"

definition realloc :: "addr \<Rightarrow> size_t \<Rightarrow> heap \<Rightarrow> (fault + addr \<times> heap) option" where
  "realloc ptr sz s =
     (let block = payload_to_header ptr in
      if sz = 0 then Some (rbind (free ptr s) (\<lambda>s1. Inr (0, s1)))
      else if ptr = 0 then malloc sz s
      else
        (case malloc sz s of
           None \<Rightarrow> None
         | Some (Inl e) \<Rightarrow> Some (Inl e)
         | Some (Inr (newptr, s1)) \<Rightarrow>
             if newptr = 0 then Some (Inr (0, s1))
             else Some (rbind (get_payload_size s1 block) (\<lambda>copysize.
                    let copysize = (if sz < copysize then sz else copysize) in
                    rbind (memcpy newptr ptr copysize s1) (\<lambda>s2.
                    rbind (free ptr s2) (\<lambda>s3. Inr (newptr, s3)))))))"

definition calloc :: "size_t \<Rightarrow> size_t \<Rightarrow> heap \<Rightarrow> (fault + addr \<times> heap) option" where
  "calloc elements sz s =
     (let asize = elements * sz in
      if elements = 0 then Some (Inl DivByZero)
      else if asize div elements \<noteq> sz then Some (Inr (0, s))
      else
        (case malloc asize s of
           None \<Rightarrow> None
         | Some (Inl e) \<Rightarrow> Some (Inl e)
         | Some (Inr (bp, s1)) \<Rightarrow>
             if bp = 0 then Some (Inr (0, s1))
             else Some (rbind (memset bp 0 asize s1) (\<lambda>s2. Inr (bp, s2)))))"

subsection \<open>The heap checker\<close>

text \<open>
  \<^verbatim>\<open>mm_checkheap\<close> prints one line when a check of its first loop fails; the
  line is a value of the model. Debugging is disabled (\<^verbatim>\<open>DEBUG\<close> is not
  defined), so the \<^verbatim>\<open>dbg_printf\<close> calls of the second loop print nothing.
\<close>

datatype report =
  Mismatch addr word_t word_t
  | Unaligned addr
  | TooSmall addr word_t
  | NotDsize addr word_t
  | AdjacentFree addr addr bool bool

text \<open>The body of the first loop: the checks on \<^verbatim>\<open>curr\<close>, given \<^verbatim>\<open>next\<close>.\<close>

definition checkheap_step :: "heap \<Rightarrow> addr \<Rightarrow> addr \<Rightarrow> fault + report option" where
  "checkheap_step s cur next =
     rbind (load s cur) (\<lambda>hdr.
     rbind (load s (find_prev_footer next)) (\<lambda>ftr.
     rbind (get_alloc s cur) (\<lambda>allocated.
       if hdr \<noteq> ftr then Inr (Some (Mismatch cur hdr ftr))
       else if allocated \<and> \<not> aligned (header_to_payload cur) then Inr (Some (Unaligned cur))
       else
         rbind (get_size s cur) (\<lambda>sz.
           if sz < min_block_size then Inr (Some (TooSmall cur hdr))
           else if sz mod dsize \<noteq> 0 then Inr (Some (NotDsize cur hdr))
           else
             rbind (get_alloc s cur) (\<lambda>curr_alloc.
             rbind (get_alloc s next) (\<lambda>next_alloc.
               if \<not> curr_alloc \<or> \<not> next_alloc
               then Inr (Some (AdjacentFree cur next curr_alloc next_alloc))
               else Inr None))))))"

text \<open>
  The first loop. \<^verbatim>\<open>next + 1\<close> is arithmetic on a \<^verbatim>\<open>block_t *\<close>: it adds
  the 24 bytes of a \<^verbatim>\<open>block_t\<close>.
\<close>

partial_function (option) checkheap_blocks :: "heap \<Rightarrow> addr \<Rightarrow> (fault + bool \<times> report list) option" where
  "checkheap_blocks s cur =
     (case get_next_block s cur of
        Inl e \<Rightarrow> Some (Inl e)
      | Inr next \<Rightarrow>
          if next + 24 < mem_heap_hi s then
            (case checkheap_step s cur next of
               Inl e \<Rightarrow> Some (Inl e)
             | Inr (Some r) \<Rightarrow> Some (Inr (False, [r]))
             | Inr None \<Rightarrow> checkheap_blocks s next)
          else Some (Inr (True, [])))"

text \<open>The second loop, over the free list.\<close>

partial_function (option) checkheap_list :: "heap \<Rightarrow> addr \<Rightarrow> (fault + bool) option" where
  "checkheap_list s tmp =
     (case get_size s tmp of
        Inl e \<Rightarrow> Some (Inl e)
      | Inr sz \<Rightarrow>
          if sz > 0 then
            (if tmp < mem_heap_lo s \<or> tmp > mem_heap_hi s then Some (Inr False)
             else (case get_next_free s tmp of
                     Inl e \<Rightarrow> Some (Inl e)
                   | Inr nxt \<Rightarrow> checkheap_list s nxt))
          else Some (Inr True))"

text \<open>
  \<^verbatim>\<open>prologue + 5 * wsize\<close> is arithmetic on a \<^verbatim>\<open>word_t *\<close>: it adds
  \<open>5 * wsize\<close> words of 8 bytes.
\<close>

definition mm_checkheap :: "heap \<Rightarrow> (fault + bool \<times> report list) option" where
  "mm_checkheap s =
     (let cur = prologue s + 8 * (5 * wsize) in
      if cur = 0 then Some (Inr (True, []))
      else
        (case checkheap_blocks s cur of
           None \<Rightarrow> None
         | Some (Inl e) \<Rightarrow> Some (Inl e)
         | Some (Inr (ok, out)) \<Rightarrow>
             if \<not> ok then Some (Inr (False, out))
             else
               (case get_next_free s (free_root s) of
                  Inl e \<Rightarrow> Some (Inl e)
                | Inr tmp \<Rightarrow>
                    (case checkheap_list s tmp of
                       None \<Rightarrow> None
                     | Some (Inl e) \<Rightarrow> Some (Inl e)
                     | Some (Inr b) \<Rightarrow> Some (Inr (b, out))))))"

section \<open>Concrete heaps\<close>

text \<open>A fresh heap region from \<open>lo\<close> to \<open>hi\<close>, before \<^verbatim>\<open>mm_init\<close>.\<close>

definition fresh_heap :: "addr \<Rightarrow> addr \<Rightarrow> heap" where
  "fresh_heap lo hi =
     \<lparr>mem = (\<lambda>_. 0), mem_start = lo, mem_brk = lo, mem_max_addr = hi,
      free_root = 0, prologue = 0, counter_global = 0\<rparr>"

text \<open>
  The heap that \<^verbatim>\<open>mm_init\<close> builds in a region with room for the initial chunk
  only: prologue, root and one free block of 4096 bytes at \<open>0x10028\<close>.
\<close>

definition full_heap :: heap where
  "full_heap =
     \<lparr>mem = (\<lambda>_. 0)(0x10000 := 1, 0x10008 := 1, 0x10020 := 1, 0x10010 := 0x10028,
              0x10018 := 0x10028, 0x10028 := 4096, 0x11020 := 4096, 0x10038 := 0x10008,
              0x10030 := 0x10008),
      mem_start = 0x10000, mem_brk = 0x11028, mem_max_addr = 0x11028,
      free_root = 0x10008, prologue = 0x10000, counter_global = 1\<rparr>"


text \<open>
  A region with room to grow, from \<open>0x10000\<close> to \<open>0x20000\<close>. After \<^verbatim>\<open>mm_init\<close>:
  one free block of 4096 bytes.
\<close>

definition heap_init :: heap where
  "heap_init =
     \<lparr>mem = (\<lambda>_. 0)(0x10000 := 1,
              0x10008 := pack 0 True, 0x10010 := 0x10028, 0x10018 := 0x10028,
              0x10020 := pack 0 True,
              0x10028 := pack 4096 False, 0x10030 := 0x10008, 0x10038 := 0x10008,
              0x11020 := pack 4096 False),
      mem_start = 0x10000, mem_brk = 0x11028, mem_max_addr = 0x20000,
      free_root = 0x10008, prologue = 0x10000, counter_global = 1\<rparr>"

text \<open>
  After \<^verbatim>\<open>malloc(2000)\<close>: an allocated block of 2016 bytes at \<open>0x10028\<close> and a free
  block of 2080 bytes at \<open>0x10808\<close>, which ends at the heap top \<open>0x11028\<close>.
\<close>

definition heap_one :: heap where
  "heap_one =
     \<lparr>mem = (\<lambda>_. 0)(0x10000 := 1,
              0x10008 := pack 0 True, 0x10010 := 0x10808, 0x10018 := 0x10808,
              0x10020 := pack 0 True,
              0x10028 := pack 2016 True, 0x10030 := 0x10008, 0x10038 := 0x10008,
              0x10800 := pack 2016 True,
              0x10808 := pack 2080 False, 0x10810 := 0x10008, 0x10818 := 0x10008,
              0x11020 := pack 2080 False),
      mem_start = 0x10000, mem_brk = 0x11028, mem_max_addr = 0x20000,
      free_root = 0x10008, prologue = 0x10000, counter_global = 1\<rparr>"

text \<open>
  After \<^verbatim>\<open>malloc(3000)\<close> in that state: the heap has grown by 4096 bytes to
  \<open>0x12028\<close>; an allocated block of 3024 bytes at the old top \<open>0x11028\<close> and a free
  block of 1072 bytes at \<open>0x11BF8\<close> follow the free block at \<open>0x10808\<close>.
\<close>

definition heap_two :: heap where
  "heap_two =
     \<lparr>mem = (\<lambda>_. 0)(0x10000 := 1,
              0x10008 := pack 0 True, 0x10010 := 0x11BF8, 0x10018 := 0x10808,
              0x10020 := pack 0 True,
              0x10028 := pack 2016 True, 0x10030 := 0x10008, 0x10038 := 0x10008,
              0x10800 := pack 2016 True,
              0x10808 := pack 2080 False, 0x10810 := 0x10008, 0x10818 := 0x11BF8,
              0x11020 := pack 2080 False,
              0x11028 := pack 3024 True, 0x11030 := 0x10808, 0x11038 := 0x10008,
              0x11BF0 := pack 3024 True,
              0x11BF8 := pack 1072 False, 0x11C00 := 0x10808, 0x11C08 := 0x10008,
              0x12020 := pack 1072 False),
      mem_start = 0x10000, mem_brk = 0x12028, mem_max_addr = 0x20000,
      free_root = 0x10008, prologue = 0x10000, counter_global = 2\<rparr>"

text \<open>
  Heaps of three blocks: \<open>0x10028\<close> (48 bytes), \<open>0x10058\<close> (32 bytes) and \<open>0x10078\<close>
  (64 bytes), up to the heap top \<open>0x100B8\<close>. The first and the last block are allocated
  (\<open>lo\<close>, \<open>hi\<close>) or free and then in the free list, the last block before the first one;
  the middle block carries the flag \<open>mid\<close> and is not in the list.
\<close>

definition three_blocks :: "bool \<Rightarrow> bool \<Rightarrow> bool \<Rightarrow> heap" where
  "three_blocks lo mid hi =
     \<lparr>mem = (\<lambda>_. 0)(0x10000 := 1,
              0x10008 := pack 0 True,
              0x10010 := (if \<not> lo then 0x10028 else if \<not> hi then 0x10078 else 0x10008),
              0x10018 := (if \<not> hi then 0x10078 else if \<not> lo then 0x10028 else 0x10008),
              0x10020 := pack 0 True,
              0x10028 := pack 48 lo,
              0x10030 := (if \<not> hi then 0x10078 else 0x10008), 0x10038 := 0x10008,
              0x10050 := pack 48 lo,
              0x10058 := pack 32 mid, 0x10070 := pack 32 mid,
              0x10078 := pack 64 hi,
              0x10080 := 0x10008, 0x10088 := (if \<not> lo then 0x10028 else 0x10008),
              0x100B0 := pack 64 hi),
      mem_start = 0x10000, mem_brk = 0x100B8, mem_max_addr = 0x20000,
      free_root = 0x10008, prologue = 0x10000, counter_global = 3\<rparr>"

section \<open>The abstract view of a heap\<close>

text \<open>
  Positions and sizes are natural numbers; \<open>w64\<close> is the machine word of a number.
\<close>

definition w64 :: "nat \<Rightarrow> 64 word" where
  "w64 n = of_nat n"

text \<open>
  A block of the physical chain: its position (the address of its header), its size and
  its allocation flag. The chain from \<open>a\<close> to \<open>e\<close> tiles the addresses from \<open>a\<close>
  to \<open>e\<close> with blocks of at least 32 bytes, each a multiple of 16.
\<close>

type_synonym blk = "nat \<times> nat \<times> bool"

fun chain :: "nat \<Rightarrow> blk list \<Rightarrow> nat \<Rightarrow> bool" where
  "chain a [] e \<longleftrightarrow> a = e"
| "chain a ((p, n, al) # bs) e \<longleftrightarrow> p = a \<and> 32 \<le> n \<and> n mod 16 = 0 \<and> chain (a + n) bs e"

text \<open>Header and footer of every block hold its size and flag.\<close>

definition tags_ok :: "(addr \<Rightarrow> word_t) \<Rightarrow> blk list \<Rightarrow> bool" where
  "tags_ok m bs \<longleftrightarrow>
     (\<forall>(p, n, al) \<in> set bs. m (w64 p) = pack (w64 n) al \<and> m (w64 (p + n - 8)) = pack (w64 n) al)"

fun no_adj_free :: "blk list \<Rightarrow> bool" where
  "no_adj_free ((p, n, al) # (q, k, bl) # bs) \<longleftrightarrow> (al \<or> bl) \<and> no_adj_free ((q, k, bl) # bs)"
| "no_adj_free bs \<longleftrightarrow> True"

definition free_pos :: "blk list \<Rightarrow> nat set" where
  "free_pos bs = {p. \<exists>n. (p, n, False) \<in> set bs}"

definition alloc_pos :: "blk list \<Rightarrow> nat set" where
  "alloc_pos bs = {p. \<exists>n. (p, n, True) \<in> set bs}"

text \<open>
  A chain of pointers: the field \<open>f\<close> of \<open>a\<close> points to the first node of the list,
  the field of each node to the next one, and the field of the last node to \<open>z\<close>.
\<close>

fun lchain :: "(nat \<Rightarrow> addr) \<Rightarrow> nat \<Rightarrow> nat list \<Rightarrow> nat \<Rightarrow> bool" where
  "lchain f a [] z \<longleftrightarrow> f a = w64 z"
| "lchain f a (x # xs) z \<longleftrightarrow> f a = w64 x \<and> lchain f x xs z"

definition nxt :: "(addr \<Rightarrow> word_t) \<Rightarrow> nat \<Rightarrow> addr" where
  "nxt m q = m (w64 (q + 16))"

definition prv :: "(addr \<Rightarrow> word_t) \<Rightarrow> nat \<Rightarrow> addr" where
  "prv m q = m (w64 (q + 8))"

text \<open>
  The circular doubly linked list anchored at the root \<open>r\<close>, holding the nodes \<open>fl\<close>
  in list order.
\<close>

definition dll :: "(addr \<Rightarrow> word_t) \<Rightarrow> nat \<Rightarrow> nat list \<Rightarrow> bool" where
  "dll m r fl \<longleftrightarrow> lchain (nxt m) r fl r \<and> lchain (prv m) r (rev fl) r"

text \<open>
  The structure of an initialised heap between \<open>L\<close> and \<open>B\<close>: the prologue word,
  the root (header at \<open>L + 8\<close>, two link fields, footer at \<open>L + 32\<close>) and then the
  chain of blocks from \<open>L + 40\<close> up to the heap top \<open>B\<close>, with the free list
  holding free blocks of the chain only.
\<close>

definition heap_tags :: "(addr \<Rightarrow> word_t) \<Rightarrow> nat \<Rightarrow> nat \<Rightarrow> blk list \<Rightarrow> bool" where
  "heap_tags m L B bs \<longleftrightarrow>
     L mod 16 = 0 \<and> B < 2 ^ 64 \<and>
     m (w64 (L + 8)) = pack 0 True \<and> m (w64 (L + 32)) = pack 0 True \<and>
     chain (L + 40) bs B \<and> tags_ok m bs"

definition heap_mem :: "(addr \<Rightarrow> word_t) \<Rightarrow> nat \<Rightarrow> nat \<Rightarrow> blk list \<Rightarrow> nat list \<Rightarrow> bool" where
  "heap_mem m L B bs fl \<longleftrightarrow>
     heap_tags m L B bs \<and> dll m (L + 8) fl \<and> distinct fl \<and> set fl \<subseteq> free_pos bs"

definition heap_struct :: "heap \<Rightarrow> blk list \<Rightarrow> nat list \<Rightarrow> bool" where
  "heap_struct s bs fl \<longleftrightarrow>
     prologue s = mem_start s \<and> free_root s = mem_start s + 8 \<and>
     heap_mem (mem s) (unat (mem_start s)) (unat (mem_brk s)) bs fl"

text \<open>
  The invariant: moreover every free block is in the free list, and no two neighbours
  of the chain are both free.
\<close>

definition heap_inv :: "heap \<Rightarrow> blk list \<Rightarrow> nat list \<Rightarrow> bool" where
  "heap_inv s bs fl \<longleftrightarrow> heap_struct s bs fl \<and> free_pos bs \<subseteq> set fl \<and> no_adj_free bs"

text \<open>
  Nodes of a list take three words (header, \<^verbatim>\<open>prev\<close>, \<^verbatim>\<open>next\<close>); they are
  spaced when no two of them overlap.
\<close>

definition spaced :: "nat list \<Rightarrow> bool" where
  "spaced ns \<longleftrightarrow>
     (\<forall>q \<in> set ns. q + 24 < 2 ^ 64) \<and>
     (\<forall>q \<in> set ns. \<forall>q' \<in> set ns. q = q' \<or> q + 24 \<le> q' \<or> q' + 24 \<le> q)"

text \<open>Two states with the same heap region.\<close>

definition same_region :: "heap \<Rightarrow> heap \<Rightarrow> bool" where
  "same_region s s' \<longleftrightarrow>
     mem_start s' = mem_start s \<and> mem_brk s' = mem_brk s \<and> mem_max_addr s' = mem_max_addr s"

text \<open>
  The state in the middle of \<^verbatim>\<open>free\<close>: the block at \<open>p\<close> is marked free but is
  not in the free list yet; apart from that the invariant holds (with the block counted
  as allocated, no two neighbours are free).
\<close>

definition pending :: "heap \<Rightarrow> blk list \<Rightarrow> nat \<Rightarrow> nat \<Rightarrow> blk list \<Rightarrow> nat list \<Rightarrow> bool" where
  "pending s xs p n ys fl \<longleftrightarrow>
     heap_struct s (xs @ (p, n, False) # ys) fl \<and> p \<notin> set fl \<and>
     free_pos xs \<union> free_pos ys \<subseteq> set fl \<and> no_adj_free (xs @ (p, n, True) # ys)"

text \<open>
  A fresh heap region, before \<^verbatim>\<open>mm_init\<close>: empty, starting at a multiple of 16
  (as a region obtained from the system allocator does), the allocator not initialised.
\<close>

definition fresh :: "heap \<Rightarrow> bool" where
  "fresh s \<longleftrightarrow> free_root s = 0 \<and> mem_brk s = mem_start s \<and> mem_start s AND 15 = 0"

text \<open>The payload addresses of the allocated blocks of a chain.\<close>

definition payloads :: "blk list \<Rightarrow> addr set" where
  "payloads bs = (\<lambda>q. w64 (q + 8)) ` alloc_pos bs"

text \<open>
  The states that a client can reach through the public operations, together with the
  set of pointers it holds (returned by an allocation and not freed since). The client
  keeps the contract of the interface: it frees and reallocates only pointers that it
  holds, and its request sizes stay 32 bytes below the top of the size type, so that
  the adjusted size does not wrap around.
\<close>

inductive reachable :: "heap \<Rightarrow> addr set \<Rightarrow> bool" where
  r_fresh: "fresh s \<Longrightarrow> reachable s {}"
| r_init: "reachable s A \<Longrightarrow> free_root s = 0 \<Longrightarrow> mm_init s = Inr (ok, s') \<Longrightarrow> reachable s' A"
| r_malloc: "reachable s A \<Longrightarrow> unat sz + 31 < 2 ^ 64 \<Longrightarrow> malloc sz s = Some (Inr (p, s')) \<Longrightarrow>
     reachable s' (if p = 0 then A else insert p A)"
| r_free: "reachable s A \<Longrightarrow> p \<in> A \<Longrightarrow> free p s = Inr s' \<Longrightarrow> reachable s' (A - {p})"
| r_realloc: "reachable s A \<Longrightarrow> p = 0 \<or> p \<in> A \<Longrightarrow> unat sz + 31 < 2 ^ 64 \<Longrightarrow>
     realloc p sz s = Some (Inr (q, s')) \<Longrightarrow>
     reachable s' (if sz = 0 then A - {p} else if q = 0 then A else insert q (A - {p}))"
| r_calloc: "reachable s A \<Longrightarrow> unat (n * sz) + 31 < 2 ^ 64 \<Longrightarrow>
     calloc n sz s = Some (Inr (p, s')) \<Longrightarrow>
     reachable s' (if p = 0 then A else insert p A)"

text \<open>
  What holds of every reachable state: the heap is still fresh, or it satisfies the
  invariant for some chain of blocks and some free list, and the client holds exactly
  the payloads of the allocated blocks.
\<close>

definition heap_ok :: "heap \<Rightarrow> addr set \<Rightarrow> bool" where
  "heap_ok s A \<longleftrightarrow> (fresh s \<and> A = {}) \<or> (\<exists>bs fl. heap_inv s bs fl \<and> A = payloads bs)"

section \<open>Basic facts\<close>

lemmas model_defs = valid_def load_def store_def mem_sbrk_def mem_heap_lo_def mem_heap_hi_def
  wsize_def dsize_def min_block_size_def chunksize_def alloc_mask_def size_mask_def
  pack_def round_up_def max_size_def in_heap_def extract_size_def extract_alloc_def
  header_to_payload_def payload_to_header_def prev_field_def next_field_def get_size_def
  get_alloc_def find_prev_footer_def get_payload_size_def get_next_free_def get_prev_free_def
  get_next_block_def get_prev_block_def write_block_def remove_from_list_def add_to_list_def
  find_fit_def extend_heap_def coalesce_def place_def mm_init_def malloc_def free_def
  realloc_def calloc_def

lemma rbind_simps [simp]: "rbind (Inl e) f = Inl e" "rbind (Inr x) f = f x"
  by (simp_all add: rbind_def)

lemma rbind_eq_Inr: "rbind m f = Inr y \<longleftrightarrow> (\<exists>x. m = Inr x \<and> f x = Inr y)"
  by (cases m) simp_all

lemma mm_init_full_heap: "mm_init (fresh_heap 0x10000 0x11028) = Inr (True, full_heap)"
  by (simp add: model_defs fresh_heap_def full_heap_def Let_def fun_upd_twist)

subsection \<open>Words and alignment\<close>

lemma and15_iff: "(x :: 64 word) AND 15 = 0 \<longleftrightarrow> unat x mod 16 = 0"
proof -
  have "x AND 15 = x AND mask 4" by (simp add: mask_eq_exp_minus_1)
  also have "\<dots> = x mod 16" using word_mod_2p_is_mask[of 4 x] by simp
  finally have "x AND 15 = x mod 16" .
  then show ?thesis
    by (simp add: word_unat_eq_iff unat_mod)
qed

lemma and7_iff: "(x :: 64 word) AND 7 = 0 \<longleftrightarrow> unat x mod 8 = 0"
proof -
  have "x AND 7 = x AND mask 3" by (simp add: mask_eq_exp_minus_1)
  also have "\<dots> = x mod 8" using word_mod_2p_is_mask[of 3 x] by simp
  finally have "x AND 7 = x mod 8" .
  then show ?thesis
    by (simp add: word_unat_eq_iff unat_mod)
qed

lemma unat_round_up:
  "unat (round_up x dsize) = (16 * ((unat x + 15) mod 2^64 div 16)) mod 2^64"
  by (simp add: round_up_def dsize_def wsize_def unat_word_ariths unat_div)

lemma round_up_noov:
  assumes "unat x + 15 < 2 ^ 64"
  shows "unat (round_up x dsize) = 16 * ((unat x + 15) div 16)"
proof -
  have "16 * ((unat x + 15) div 16) \<le> unat x + 15" by simp
  with assms have "16 * ((unat x + 15) div 16) < 2 ^ 64" by linarith
  with assms show ?thesis by (simp add: unat_round_up)
qed

lemma round_up_aligned: "round_up x dsize AND 15 = 0"
proof -
  have "(16 * ((unat x + 15) mod 2^64 div 16)) mod 2^64 mod 16 = 0"
    by (simp add: mod_mod_cancel)
  then show ?thesis by (simp add: and15_iff unat_round_up)
qed

lemma round_up_id:
  assumes "m AND 15 = 0" shows "round_up m dsize = m"
proof -
  have m16: "unat m mod 16 = 0" using assms by (simp add: and15_iff)
  have "unat m < 18446744073709551616" using unsigned_less[of m, where 'a=nat] by simp
  with m16 have "unat m + 15 < 18446744073709551616" by presburger
  then have b: "unat m + 15 < 2 ^ 64" by simp
  have "unat (round_up m dsize) = 16 * ((unat m + 15) div 16)"
    by (rule round_up_noov[OF b])
  also have "\<dots> = unat m" using m16 by presburger
  finally show ?thesis by (simp add: word_unat_eq_iff)
qed

lemma max_size_aligned: "a AND 15 = 0 \<Longrightarrow> max_size a chunksize AND 15 = 0"
  by (simp add: max_size_def chunksize_def)

lemma max_size_ge: "chunksize \<le> max_size a chunksize"
  by (auto simp: max_size_def)

lemma extend_size_pos:
  assumes "a AND 15 = 0" shows "4096 \<le> unat (round_up (max_size a chunksize) dsize)"
proof -
  have "round_up (max_size a chunksize) dsize = max_size a chunksize"
    by (rule round_up_id[OF max_size_aligned[OF assms]])
  moreover have "unat chunksize \<le> unat (max_size a chunksize)"
    using max_size_ge[of a] by (simp add: word_le_nat_alt)
  ultimately show ?thesis by (simp add: chunksize_def)
qed

subsection \<open>Valid accesses\<close>

lemma not_valid_m8: "\<not> valid s (- 8)"
  using unsigned_less[of "mem_brk s", where 'a=nat] by (simp add: valid_def)

lemma valid_bound: "valid s a \<Longrightarrow> unat a + 8 < 2 ^ 64"
  using unsigned_less[of "mem_brk s", where 'a=nat] by (simp add: valid_def)

lemma valid_plus8_nonzero: assumes "valid s a" shows "a + 8 \<noteq> 0"
proof
  assume "a + 8 = 0"
  then have "unat (a + 8) = 0" by simp
  moreover have "unat (a + 8) = unat a + 8"
    using valid_bound[OF assms] by (simp add: unat_word_ariths)
  ultimately show False by simp
qed

lemma valid_brk_nonzero: "valid s a \<Longrightarrow> mem_brk s \<noteq> 0"
  by (auto simp: valid_def)

lemma store_valid: "store s a v = Inr s' \<Longrightarrow> valid s a"
  by (simp add: store_def split: if_splits)

lemma load_valid: "load s a = Inr v \<Longrightarrow> valid s a"
  by (simp add: load_def split: if_splits)

lemma place_valid: "place b n s = Inr s' \<Longrightarrow> valid s b"
  by (auto simp: place_def get_size_def rbind_eq_Inr dest: load_valid)

lemma find_fit_valid: "find_fit s a = Some (Inr b) \<Longrightarrow> valid s (next_field (free_root s))"
  by (auto simp: find_fit_def get_next_free_def split: sum.splits dest: load_valid)

section \<open>Failing allocations\<close>

lemma free_null: "free 0 s = Inl (BadAccess (- 8))"
  by (simp add: free_def payload_to_header_def get_size_def load_def not_valid_m8)

lemma overflow_detected:
  fixes e z :: size_t
  assumes "e \<noteq> 0" and "2 ^ 64 \<le> unat e * unat z"
  shows "(e * z) div e \<noteq> z"
proof
  assume "(e * z) div e = z"
  then have "unat (e * z) div unat e = unat z"
    by (metis unat_div)
  then have "unat z * unat e \<le> unat (e * z)"
    by (metis div_times_less_eq_dividend)
  moreover have "unat (e * z) < 2 ^ 64"
    using unsigned_less[of "e * z", where 'a=nat] by simp
  ultimately show False using assms(2) by (simp add: mult.commute)
qed

lemma extend_heap_null:
  assumes "extend_heap (max_size a chunksize) s = Inr (0, s1)"
    and "a AND 15 = 0" and "mem_brk s \<noteq> 0"
  shows "s1 = s"
proof -
  let ?n = "round_up (max_size a chunksize) dsize"
  have pos: "4096 \<le> unat ?n" by (rule extend_size_pos[OF assms(2)])
  show ?thesis
  proof (cases "unat (mem_brk s) + unat ?n \<le> unat (mem_max_addr s)")
    case False
    with assms(1) show ?thesis by (simp add: extend_heap_def mem_sbrk_def)
  next
    case True
    have "unat (mem_max_addr s) < 2 ^ 64"
      using unsigned_less[of "mem_max_addr s", where 'a=nat] by simp
    with True pos have "unat (mem_brk s) \<noteq> unat (- 1 :: 64 word)"
      by (simp add: unsigned_minus_1_eq_mask mask_eq_exp_minus_1)
    then have "mem_brk s \<noteq> - 1" by auto
    with True assms(1,3) show ?thesis
      by (auto simp: extend_heap_def mem_sbrk_def rbind_eq_Inr Let_def)
  qed
qed

lemma malloc_null_unchanged:
  assumes "malloc sz s = Some (Inr (0, s'))" and "free_root s \<noteq> 0"
  shows "s' = s"
proof (cases "sz = 0")
  case True
  with assms show ?thesis by (simp add: malloc_def)
next
  case False
  let ?a = "round_up (sz + dsize) dsize"
  from assms False obtain found where ff: "find_fit s ?a = Some (Inr found)"
    and res: "rbind (if found = 0 then extend_heap (max_size ?a chunksize) s else Inr (found, s))
               (\<lambda>(block, s1). if block = 0 then Inr (0, s1)
                  else rbind (place block ?a s1) (\<lambda>s2. Inr (header_to_payload block, s2))) = Inr (0, s')"
    by (auto simp: malloc_def Let_def split: option.splits sum.splits)
  have brk: "mem_brk s \<noteq> 0" using find_fit_valid[OF ff] by (rule valid_brk_nonzero)
  from res obtain block s1 where
    b: "(if found = 0 then extend_heap (max_size ?a chunksize) s else Inr (found, s)) = Inr (block, s1)"
    and r: "(if block = 0 then Inr (0, s1)
             else rbind (place block ?a s1) (\<lambda>s2. Inr (header_to_payload block, s2))) = Inr (0, s')"
    by (auto simp: rbind_eq_Inr)
  show ?thesis
  proof (cases "block = 0")
    case True
    with r have "s' = s1" by simp
    moreover from b True have "s1 = s"
      by (auto split: if_splits dest: extend_heap_null[OF _ round_up_aligned brk])
    ultimately show ?thesis by simp
  next
    case False
    with r obtain s2 where "place block ?a s1 = Inr s2" and "header_to_payload block = 0"
      by (auto simp: rbind_eq_Inr)
    then show ?thesis
      using valid_plus8_nonzero[OF place_valid] by (simp add: header_to_payload_def)
  qed
qed

text \<open>
  Claim C6. When \<^verbatim>\<open>realloc\<close> is called on an initialised heap with a non-null
  pointer and a size greater than 0 and the fresh allocation fails (\<^verbatim>\<open>malloc\<close>
  returns the null pointer), \<^verbatim>\<open>realloc\<close> returns the null pointer and the whole
  state is the one before the call: every byte of the memory, so also the header, the
  footer and the payload of the original block, is unchanged.
\<close>

theorem realloc_failure_atomic:
  assumes "ptr \<noteq> 0" and "sz \<noteq> 0" and "free_root s \<noteq> 0"
    and "malloc sz s = Some (Inr (0, s'))"
  shows "realloc ptr sz s = Some (Inr (0, s')) \<and> s' = s"
  using assms malloc_null_unchanged[OF assms(4,3)] by (simp add: realloc_def)

lemma malloc_full_heap: "malloc 5000 full_heap = Some (Inr (0, full_heap))"
  by (simp add: model_defs full_heap_def Let_def find_fit_loop.simps)

theorem realloc_failure_atomic_witness:
  "(0x10030 :: addr) \<noteq> 0 \<and> (5000 :: size_t) \<noteq> 0 \<and> free_root full_heap \<noteq> 0 \<and>
   malloc 5000 full_heap = Some (Inr (0, full_heap)) \<and>
   realloc 0x10030 5000 full_heap = Some (Inr (0, full_heap))"
proof -
  have r: "free_root full_heap \<noteq> 0" by (simp add: full_heap_def)
  show ?thesis
    using realloc_failure_atomic[OF _ _ r malloc_full_heap, of "0x10030"] r malloc_full_heap
    by simp
qed

text \<open>
  Claim C7. When the product \<open>count * elem_size\<close> does not fit in 64 bits, the check
  \<^verbatim>\<open>asize / elements != size\<close> of \<^verbatim>\<open>calloc\<close> detects it (for a count other
  than 0), and \<^verbatim>\<open>calloc\<close> returns the null pointer with the state unchanged: no
  allocation and no heap growth is attempted. \<^verbatim>\<open>calloc(SIZE_MAX, 2)\<close> is such a call.
\<close>

theorem calloc_overflow:
  "elements \<noteq> 0 \<Longrightarrow> 2 ^ 64 \<le> unat elements * unat sz \<Longrightarrow>
   calloc elements sz s = Some (Inr (0, s))"
  using overflow_detected[of elements sz] by (simp add: calloc_def)

theorem calloc_overflow_witness:
  "(- 1 :: size_t) \<noteq> 0 \<and> (2::nat) ^ 64 \<le> unat (- 1 :: size_t) * unat (2 :: size_t) \<and>
   calloc (- 1) 2 full_heap = Some (Inr (0, full_heap))"
  using calloc_overflow[of "- 1" 2 full_heap]
  by (simp add: unsigned_minus_1_eq_mask mask_eq_exp_minus_1)

text \<open>
  Claim C9. \<^verbatim>\<open>calloc\<close> divides \<open>elements * size\<close> by \<open>elements\<close> without testing
  \<open>elements\<close> for 0 first: with a count of 0 the call reaches the division by zero and
  returns no result, whatever the element size and the state.
\<close>

theorem calloc_zero_count: "calloc 0 sz s = Some (Inl DivByZero)"
  by (simp add: calloc_def)

text \<open>
  Claim C10. \<^verbatim>\<open>realloc\<close> tests \<open>size == 0\<close> before it tests the pointer:
  \<^verbatim>\<open>realloc(NULL, 0)\<close> calls \<^verbatim>\<open>free(NULL)\<close>, which takes the header 8 bytes
  before the null pointer and reads it, an access outside every heap. With a size
  other than 0 the null pointer makes \<^verbatim>\<open>realloc\<close> behave as \<^verbatim>\<open>malloc\<close>.
\<close>

theorem realloc_null:
  "realloc 0 0 s = Some (Inl (BadAccess (- 8))) \<and>
   (sz \<noteq> 0 \<longrightarrow> realloc 0 sz s = malloc sz s)"
  by (simp add: realloc_def free_null)

theorem realloc_null_witness:
  "realloc 0 0 full_heap = Some (Inl (BadAccess (- 8))) \<and>
   (100 :: size_t) \<noteq> 0 \<and> realloc 0 100 full_heap = malloc 100 full_heap"
  using realloc_null[of full_heap 100] by simp

section \<open>Words of numbers\<close>

lemma w64_add: "w64 a + w64 b = w64 (a + b)"
  by (simp add: w64_def)

lemma w64_add_num: "w64 a + numeral k = w64 (a + numeral k)"
  by (simp add: w64_def)

lemma w64_sub: "b \<le> a \<Longrightarrow> w64 a - w64 b = w64 (a - b)"
  by (simp add: w64_def)

lemma w64_sub_num: "numeral k \<le> a \<Longrightarrow> w64 a - numeral k = w64 (a - numeral k)"
  using w64_sub[of "numeral k" a] by (simp add: w64_def)

lemma w64_unat: "w64 (unat w) = w"
  by (simp add: w64_def)

lemma unat_w64: "a < 2 ^ 64 \<Longrightarrow> unat (w64 a) = a"
  by (simp add: w64_def unat_of_nat)

lemma w64_inj: "a < 2 ^ 64 \<Longrightarrow> b < 2 ^ 64 \<Longrightarrow> w64 a = w64 b \<longleftrightarrow> a = b"
  by (metis unat_w64)

lemma w64_le: "a < 2 ^ 64 \<Longrightarrow> b < 2 ^ 64 \<Longrightarrow> w64 a \<le> w64 b \<longleftrightarrow> a \<le> b"
  by (simp add: word_le_nat_alt unat_w64)

lemma w64_less: "a < 2 ^ 64 \<Longrightarrow> b < 2 ^ 64 \<Longrightarrow> w64 a < w64 b \<longleftrightarrow> a < b"
  by (simp add: word_less_nat_alt unat_w64)

lemma w64_0: "w64 0 = 0"
  by (simp add: w64_def)

lemma w64_numeral: "w64 (numeral k) = numeral k"
  by (simp add: w64_def)

lemma w64_eq_0: "a < 2 ^ 64 \<Longrightarrow> w64 a = 0 \<longleftrightarrow> a = 0"
  using w64_inj[of a 0] by (simp add: w64_0)

lemma unat_bound: "unat (w :: 64 word) < 2 ^ 64"
  using unsigned_less[of w, where 'a=nat] by simp

lemma w64_and15: "a < 2 ^ 64 \<Longrightarrow> w64 a AND 15 = 0 \<longleftrightarrow> a mod 16 = 0"
  by (simp add: and15_iff unat_w64)

lemma w64_and7: "a < 2 ^ 64 \<Longrightarrow> w64 a AND 7 = 0 \<longleftrightarrow> a mod 8 = 0"
  by (simp add: and7_iff unat_w64)

lemma and_not_of_and_0:
  fixes w k :: "64 word"
  assumes "w AND k = 0" shows "w AND NOT k = w"
proof -
  have "w = w AND (k OR NOT k)" by simp
  also have "\<dots> = (w AND k) OR (w AND NOT k)" by (rule bit.conj_disj_distrib)
  also have "\<dots> = w AND NOT k" using assms by simp
  finally show ?thesis by simp
qed

lemma or1_and_not15: "((w :: 64 word) OR 1) AND NOT 15 = w AND NOT 15"
proof -
  have "(1 :: 64 word) AND NOT 15 = 0" by simp
  then show ?thesis by (simp add: bit.conj_disj_distrib2)
qed

lemma extract_size_pack: "w AND 15 = 0 \<Longrightarrow> extract_size (pack w al) = w"
  using and_not_of_and_0[of w 15] or1_and_not15[of w]
  by (simp add: extract_size_def pack_def size_mask_def alloc_mask_def)

lemma and15_and1: "(w :: 64 word) AND 15 = 0 \<Longrightarrow> w AND 1 = 0"
proof -
  assume a: "w AND 15 = 0"
  have "w AND 1 = (w AND 15) AND 1" by (simp add: and.assoc)
  with a show ?thesis by simp
qed

lemma extract_alloc_pack: "w AND 15 = 0 \<Longrightarrow> extract_alloc (pack w al) = al"
  by (simp add: extract_alloc_def pack_def alloc_mask_def bit.conj_disj_distrib2 and15_and1)

lemma extract_size_w64: "n mod 16 = 0 \<Longrightarrow> n < 2 ^ 64 \<Longrightarrow> extract_size (pack (w64 n) al) = w64 n"
  by (simp add: extract_size_pack w64_and15)

lemma extract_alloc_w64: "n mod 16 = 0 \<Longrightarrow> n < 2 ^ 64 \<Longrightarrow> extract_alloc (pack (w64 n) al) = al"
  by (simp add: extract_alloc_pack w64_and15)

lemma extract_root [simp]: "extract_size (pack 0 True) = 0" "extract_alloc (pack 0 True)"
  by (simp_all add: extract_size_def extract_alloc_def pack_def alloc_mask_def size_mask_def)

lemma valid_w64:
  "p < 2 ^ 64 \<Longrightarrow> valid s (w64 p) \<longleftrightarrow> p mod 8 = 0 \<and> unat (mem_start s) \<le> p \<and> p + 8 \<le> unat (mem_brk s)"
  by (simp add: valid_def w64_and7 word_le_nat_alt unat_w64)

lemma in_heap_w64:
  assumes "p < 2 ^ 64" and "0 < unat (mem_brk s)"
  shows "in_heap s (w64 p) \<longleftrightarrow> p < unat (mem_brk s) \<and> unat (mem_start s) \<le> p"
proof -
  have "mem_brk s \<noteq> 0" using assms(2) by auto
  then have "unat (mem_brk s - 1) = unat (mem_brk s) - 1" by (rule unat_minus_one)
  with assms show ?thesis
    by (auto simp: in_heap_def mem_heap_hi_def mem_heap_lo_def word_le_nat_alt unat_w64)
qed

section \<open>Remainders\<close>


lemma mod16_8: "(p::nat) mod 16 = 8 \<Longrightarrow> p mod 8 = 0"
  using mod_mod_cancel[of 8 16 p] by simp

lemma mod16_0_8: "(p::nat) mod 16 = 0 \<Longrightarrow> p mod 8 = 0"
  using mod_mod_cancel[of 8 16 p] by simp

lemma mod_add_zero: "(n::nat) mod k = 0 \<Longrightarrow> (a + n) mod k = a mod k"
  by (metis add.right_neutral mod_add_right_eq)

lemma mod_add_zero': "(n::nat) mod k = 0 \<Longrightarrow> (n + a) mod k = a mod k"
  by (metis add.left_neutral mod_add_left_eq)

lemma mod8_sub: "(n::nat) mod 8 = 0 \<Longrightarrow> (n - 8) mod 8 = 0"
  by (metis mod_0 mod_self  le_mod_geq diff_is_0_eq nat_le_linear)

lemma footer_mod8:
  assumes "(p::nat) mod 16 = 8" "(n::nat) mod 16 = 0" "8 \<le> n"
  shows "(p + n - 8) mod 8 = 0"
proof -
  from assms(3) have "p + n - 8 = p + (n - 8)" by simp
  moreover have "(n - 8) mod 8 = 0" using mod16_0_8[OF assms(2)] by (rule mod8_sub)
  ultimately show ?thesis using mod16_8[OF assms(1)] by (simp add: mod_add_zero)
qed

section \<open>Pointer chains\<close>

lemma lchain_cong:
  "(\<And>q. q \<in> set (a # xs) \<Longrightarrow> f q = g q) \<Longrightarrow> lchain f a xs z = lchain g a xs z"
  by (induction xs arbitrary: a) auto

lemma lchain_append: "lchain f a (xs @ y # ys) z \<longleftrightarrow> lchain f a xs y \<and> lchain f y ys z"
  by (induction xs arbitrary: a) auto

lemma lchain_snoc: "lchain f a (xs @ [y]) z \<longleftrightarrow> lchain f a xs y \<and> f y = w64 z"
  by (simp add: lchain_append)

lemma lchain_last: "lchain f a xs z \<Longrightarrow> f (last (a # xs)) = w64 z"
  by (induction xs arbitrary: a) auto

lemma lchain_hd: "lchain f a xs z \<Longrightarrow> f a = w64 (hd (xs @ [z]))"
  by (cases xs) auto

lemma lchain_retarget:
  "distinct (a # xs) \<Longrightarrow> lchain f a xs z \<Longrightarrow> lchain (f(last (a # xs) := w64 z')) a xs z'"
proof (induction xs arbitrary: a)
  case Nil
  then show ?case by simp
next
  case (Cons x xs)
  from Cons.prems have "a \<noteq> last (x # xs)" by auto
  with Cons show ?case by auto
qed

lemma lchain_upd_other:
  "c \<notin> set (a # xs) \<Longrightarrow> lchain (f(c := v)) a xs z = lchain f a xs z"
  by (rule lchain_cong) auto

lemma lchain_remove:
  assumes "distinct (a # ys @ x # zs)" and "lchain f a (ys @ x # zs) z"
  shows "lchain (f(last (a # ys) := w64 (hd (zs @ [z])))) a (ys @ zs) z"
proof -
  let ?g = "f(last (a # ys) := w64 (hd (zs @ [z])))"
  from assms(2) have l1: "lchain f a ys x" and l2: "lchain f x zs z"
    by (simp_all add: lchain_append)
  have d1: "distinct (a # ys)" using assms(1) by auto
  have "last (a # ys) \<in> set (a # ys)" by (rule last_in_set) simp
  then have nin: "last (a # ys) \<notin> set zs" using assms(1) by auto
  show ?thesis
  proof (cases zs)
    case Nil
    with lchain_retarget[OF d1 l1, of z] show ?thesis by simp
  next
    case (Cons y zs')
    with l2 have l3: "lchain f y zs' z" by simp
    from nin Cons have "last (a # ys) \<notin> set (y # zs')" by simp
    then have "lchain ?g y zs' z" using l3 by (simp add: lchain_upd_other)
    moreover have "lchain ?g a ys y" using lchain_retarget[OF d1 l1, of y] Cons by simp
    ultimately show ?thesis using Cons by (simp add: lchain_append)
  qed
qed

lemma lchain_rehead:
  "lchain f a xs z \<Longrightarrow> g b = f a \<Longrightarrow> (\<And>q. q \<in> set xs \<Longrightarrow> g q = f q) \<Longrightarrow> lchain g b xs z"
proof (cases xs)
  case Nil
  assume "lchain f a xs z" "g b = f a"
  with Nil show ?thesis by simp
next
  case (Cons x xs')
  assume a: "lchain f a xs z" "g b = f a" "\<And>q. q \<in> set xs \<Longrightarrow> g q = f q"
  from a(1) Cons have "lchain f x xs' z" by simp
  moreover have "lchain g x xs' z = lchain f x xs' z"
    by (rule lchain_cong) (use a(3) Cons in auto)
  ultimately show ?thesis using a Cons by simp
qed

section \<open>The free list in memory\<close>

lemma upd_w64:
  "a < 2 ^ 64 \<Longrightarrow> p < 2 ^ 64 \<Longrightarrow> (m(w64 a := v)) (w64 p) = (if p = a then v else m (w64 p))"
  by (simp add: w64_inj)

lemma nxt_upd:
  "a < 2 ^ 64 \<Longrightarrow> q + 16 < 2 ^ 64 \<Longrightarrow> nxt (m(w64 a := v)) q = (if a = q + 16 then v else nxt m q)"
  by (simp add: nxt_def w64_inj)

lemma prv_upd:
  "a < 2 ^ 64 \<Longrightarrow> q + 8 < 2 ^ 64 \<Longrightarrow> prv (m(w64 a := v)) q = (if a = q + 8 then v else prv m q)"
  by (simp add: prv_def w64_inj)

lemma spaced_bound: "spaced ns \<Longrightarrow> q \<in> set ns \<Longrightarrow> q + 24 < 2 ^ 64"
  by (simp add: spaced_def)

lemma spaced_sep:
  "spaced ns \<Longrightarrow> q \<in> set ns \<Longrightarrow> q' \<in> set ns \<Longrightarrow> q = q' \<or> q + 24 \<le> q' \<or> q' + 24 \<le> q"
  by (simp add: spaced_def)

lemma spaced_subset: "spaced ns \<Longrightarrow> set ms \<subseteq> set ns \<Longrightarrow> spaced ms"
  by (auto simp: spaced_def)

lemma dll_hd_last:
  assumes "dll m r fl"
  shows "nxt m r = w64 (hd (fl @ [r]))" and "prv m r = w64 (last (r # fl))"
proof -
  from assms have "lchain (nxt m) r fl r" and p: "lchain (prv m) r (rev fl) r"
    by (simp_all add: dll_def)
  then show "nxt m r = w64 (hd (fl @ [r]))" by (simp add: lchain_hd)
  from lchain_hd[OF p] show "prv m r = w64 (last (r # fl))"
    by (cases fl rule: rev_cases) auto
qed

lemma dll_add:
  assumes d: "dll m r fl" and sp: "spaced (x # r # fl)" and nin: "x \<notin> set (r # fl)"
    and dis: "distinct (r # fl)"
  defines "t \<equiv> last (r # fl)"
  shows "dll (m(w64 (t + 16) := w64 x, w64 (x + 16) := w64 r, w64 (r + 8) := w64 x,
                w64 (x + 8) := w64 t)) r (fl @ [x])"
proof -
  let ?m = "m(w64 (t + 16) := w64 x, w64 (x + 16) := w64 r, w64 (r + 8) := w64 x,
              w64 (x + 8) := w64 t)"
  have tin: "t \<in> set (r # fl)" unfolding t_def by (rule last_in_set) simp
  have tin': "t \<in> set (x # r # fl)" using tin by simp
  have bx: "x + 24 < 2 ^ 64" and br: "r + 24 < 2 ^ 64" and bt: "t + 24 < 2 ^ 64"
    using spaced_bound[OF sp, of x] spaced_bound[OF sp, of r] spaced_bound[OF sp tin'] by simp_all
  have sx: "q + 24 < 2 ^ 64 \<and> (x + 24 \<le> q \<or> q + 24 \<le> x)" if "q \<in> set (r # fl)" for q
  proof -
    from that have q: "q \<in> set (x # r # fl)" by simp
    from that nin have "x \<noteq> q" by auto
    with spaced_bound[OF sp q] spaced_sep[OF sp _ q, of x] show ?thesis by simp
  qed
  have sr: "q = r \<or> r + 24 \<le> q \<or> q + 24 \<le> r" if "q \<in> set (r # fl)" for q
  proof -
    from that have q: "q \<in> set (x # r # fl)" by simp
    from spaced_sep[OF sp q, of r] show ?thesis by auto
  qed
  have st: "q = t \<or> t + 24 \<le> q \<or> q + 24 \<le> t" if "q \<in> set (r # fl)" for q
  proof -
    from that have q: "q \<in> set (x # r # fl)" by simp
    from spaced_sep[OF sp q tin'] show ?thesis by auto
  qed
  have nx: "nxt ?m q = ((nxt m)(t := w64 x)) q" if "q \<in> set (r # fl)" for q
    using sx[OF that] sr[OF that] st[OF that] bx br bt
    by (auto simp: nxt_upd)
  have nxx: "nxt ?m x = w64 r"
    using sx[OF tin] sx[of r] bx br bt by (auto simp: nxt_upd)
  have pv: "prv ?m q = prv m q" if "q \<in> set fl" for q
  proof -
    from that dis have "q \<noteq> r" by auto
    moreover from that have "q \<in> set (r # fl)" by simp
    ultimately show ?thesis
      using sx[of q] sr[of q] st[of q] bx br bt by (auto simp: prv_upd)
  qed
  have pvr: "prv ?m r = w64 x"
    using sx[of r] bx br bt by (auto simp: prv_upd)
  have pvx: "prv ?m x = w64 t"
    using sx[of r] sx[OF tin] bx br bt by (auto simp: prv_upd)
  from d have l1: "lchain (nxt m) r fl r" and l2: "lchain (prv m) r (rev fl) r"
    by (simp_all add: dll_def)
  have "lchain ((nxt m)(t := w64 x)) r fl x"
    unfolding t_def by (rule lchain_retarget[OF dis l1])
  moreover have "lchain (nxt ?m) r fl x = lchain ((nxt m)(t := w64 x)) r fl x"
    by (rule lchain_cong) (rule nx)
  ultimately have "lchain (nxt ?m) r fl x" by simp
  then have n: "lchain (nxt ?m) r (fl @ [x]) r"
    using nxx by (simp add: lchain_snoc)
  have "prv ?m x = prv m r" using pvx dll_hd_last(2)[OF d] by (simp add: t_def)
  then have "lchain (prv ?m) x (rev fl) r"
    using pv by (intro lchain_rehead[OF l2]) auto
  then have p: "lchain (prv ?m) r (rev (fl @ [x])) r"
    using pvr by simp
  from n p show ?thesis by (simp add: dll_def)
qed


lemma hd_snoc_last_rev: "hd (rev ys @ [r]) = last (r # ys)"
  by (cases ys rule: rev_cases) auto

lemma last_cons_rev_hd: "last (r # rev zs) = hd (zs @ [r])"
  by (cases zs) auto

lemma dll_remove:
  assumes d: "dll m r (ys @ x # zs)" and sp: "spaced (r # ys @ x # zs)"
    and dis: "distinct (r # ys @ x # zs)"
  defines "P \<equiv> last (r # ys)" and "N \<equiv> hd (zs @ [r])"
  shows "prv m x = w64 P" and "nxt m x = w64 N"
    and "dll (m(w64 (P + 16) := w64 N, w64 (N + 8) := w64 P)) r (ys @ zs)"
proof -
  let ?m = "m(w64 (P + 16) := w64 N, w64 (N + 8) := w64 P)"
  from d have l1: "lchain (nxt m) r (ys @ x # zs) r"
    and l2: "lchain (prv m) r (rev zs @ x # rev ys) r"
    by (simp_all add: dll_def)
  from l2 have "lchain (prv m) x (rev ys) r" by (simp add: lchain_append)
  from lchain_hd[OF this] show "prv m x = w64 P" by (simp add: P_def hd_snoc_last_rev)
  from l1 have "lchain (nxt m) x zs r" by (simp add: lchain_append)
  from lchain_hd[OF this] show "nxt m x = w64 N" by (simp add: N_def)
  have Pin: "P \<in> set (r # ys @ x # zs)"
    using last_in_set[of "r # ys"] by (auto simp: P_def)
  have Nin: "N \<in> set (r # ys @ x # zs)"
    by (cases zs) (auto simp: N_def)
  have bP: "P + 24 < 2 ^ 64" and bN: "N + 24 < 2 ^ 64"
    using spaced_bound[OF sp Pin] spaced_bound[OF sp Nin] by simp_all
  have sP: "q + 24 < 2 ^ 64 \<and> (q = P \<or> P + 24 \<le> q \<or> q + 24 \<le> P)"
    if "q \<in> set (r # ys @ x # zs)" for q
    using spaced_bound[OF sp that] spaced_sep[OF sp that Pin] by auto
  have sN: "q = N \<or> N + 24 \<le> q \<or> q + 24 \<le> N"
    if "q \<in> set (r # ys @ x # zs)" for q
    using spaced_sep[OF sp that Nin] by auto
  have nx: "nxt ?m q = ((nxt m)(P := w64 N)) q" if "q \<in> set (r # ys @ zs)" for q
  proof -
    from that have "q \<in> set (r # ys @ x # zs)" by auto
    from sP[OF this] sN[OF this] bP bN show ?thesis by (auto simp: nxt_upd)
  qed
  have pv: "prv ?m q = ((prv m)(N := w64 P)) q" if "q \<in> set (r # rev zs @ rev ys)" for q
  proof -
    from that have "q \<in> set (r # ys @ x # zs)" by auto
    from sP[OF this] sN[OF this] bP bN show ?thesis by (auto simp: prv_upd)
  qed
  have "lchain ((nxt m)(P := w64 N)) r (ys @ zs) r"
    unfolding P_def N_def by (rule lchain_remove[OF dis l1])
  moreover have "lchain (nxt ?m) r (ys @ zs) r = lchain ((nxt m)(P := w64 N)) r (ys @ zs) r"
    by (rule lchain_cong) (rule nx)
  ultimately have n: "lchain (nxt ?m) r (ys @ zs) r" by simp
  have dis': "distinct (r # rev zs @ x # rev ys)" using dis by auto
  have e1: "last (r # rev zs) = N" unfolding N_def by (rule last_cons_rev_hd)
  have e2: "hd (rev ys @ [r]) = P" unfolding P_def by (rule hd_snoc_last_rev)
  have "lchain ((prv m)(N := w64 P)) r (rev zs @ rev ys) r"
    by (rule lchain_remove[OF dis' l2, unfolded e1 e2])
  moreover have "lchain (prv ?m) r (rev zs @ rev ys) r = lchain ((prv m)(N := w64 P)) r (rev zs @ rev ys) r"
    by (rule lchain_cong) (rule pv)
  ultimately have p: "lchain (prv ?m) r (rev (ys @ zs)) r" by simp
  from n p show "dll ?m r (ys @ zs)" by (simp add: dll_def)
qed

lemma dll_upd_other:
  assumes "dll m r fl" and "a < 2 ^ 64"
    and "\<And>q. q \<in> set (r # fl) \<Longrightarrow> q + 16 < 2 ^ 64 \<and> a \<noteq> q + 8 \<and> a \<noteq> q + 16"
  shows "dll (m(w64 a := v)) r fl"
proof -
  have n: "nxt (m(w64 a := v)) q = nxt m q" if "q \<in> set (r # fl)" for q
    using assms(3)[OF that] assms(2) by (simp add: nxt_upd)
  have p: "prv (m(w64 a := v)) q = prv m q" if "q \<in> set (r # rev fl)" for q
  proof -
    from that have "q \<in> set (r # fl)" by simp
    from assms(3)[OF this] assms(2) show ?thesis by (simp add: prv_upd)
  qed
  have "lchain (nxt (m(w64 a := v))) r fl r = lchain (nxt m) r fl r"
    by (rule lchain_cong) (rule n)
  moreover have "lchain (prv (m(w64 a := v))) r (rev fl) r = lchain (prv m) r (rev fl) r"
    by (rule lchain_cong) (rule p)
  ultimately show ?thesis using assms(1) by (simp add: dll_def)
qed

section \<open>The chain of blocks\<close>

lemma chain_append: "chain a (xs @ ys) e \<longleftrightarrow> (\<exists>m. chain a xs m \<and> chain m ys e)"
  by (induction xs arbitrary: a) auto

lemma chain_split:
  "chain a (xs @ (p, n, al) # ys) e \<longleftrightarrow>
     chain a xs p \<and> 32 \<le> n \<and> n mod 16 = 0 \<and> chain (p + n) ys e"
  by (auto simp: chain_append)

lemma chain_snoc:
  "chain a (xs @ [(p, n, al)]) e \<longleftrightarrow> chain a xs p \<and> 32 \<le> n \<and> n mod 16 = 0 \<and> p + n = e"
  by (auto simp: chain_append)

lemma chain_le: "chain a bs e \<Longrightarrow> a \<le> e"
proof (induction bs arbitrary: a)
  case Nil
  then show ?case by simp
next
  case (Cons b bs)
  obtain q k bl where b: "b = (q, k, bl)" by (cases b)
  from Cons.prems b have "chain (a + k) bs e" by simp
  from Cons.IH[OF this] show ?case by simp
qed

lemma chain_mem:
  "chain a bs e \<Longrightarrow> (p, n, al) \<in> set bs \<Longrightarrow>
   a \<le> p \<and> p + n \<le> e \<and> 32 \<le> n \<and> n mod 16 = 0 \<and> p mod 16 = a mod 16"
proof (induction bs arbitrary: a)
  case Nil
  then show ?case by simp
next
  case (Cons b bs)
  obtain q k bl where b: "b = (q, k, bl)" by (cases b)
  from Cons.prems b have c: "chain (a + k) bs e" and k: "32 \<le> k" "k mod 16 = 0" and q: "q = a"
    by auto
  show ?case
  proof (cases "(p, n, al) = b")
    case True
    with b q k chain_le[OF c] show ?thesis by auto
  next
    case False
    with Cons.prems have "(p, n, al) \<in> set bs" by auto
    from Cons.IH[OF c this] k show ?thesis by (auto simp: mod_add_left_eq[symmetric, of a 16 k] )
  qed
qed

lemma chain_sep:
  "chain a bs e \<Longrightarrow> (p, n, al) \<in> set bs \<Longrightarrow> (q, k, bl) \<in> set bs \<Longrightarrow>
   (p, n, al) = (q, k, bl) \<or> p + n \<le> q \<or> q + k \<le> p"
proof (induction bs arbitrary: a)
  case Nil
  then show ?case by simp
next
  case (Cons b bs)
  obtain r j cl where b: "b = (r, j, cl)" by (cases b)
  from Cons.prems b have c: "chain (a + j) bs e" and r: "r = a" by auto
  consider "(p, n, al) = b" "(q, k, bl) = b" | "(p, n, al) = b" "(q, k, bl) \<in> set bs"
    | "(p, n, al) \<in> set bs" "(q, k, bl) = b" | "(p, n, al) \<in> set bs" "(q, k, bl) \<in> set bs"
    using Cons.prems by auto
  then show ?case
  proof cases
    case 1
    then show ?thesis by simp
  next
    case 2
    with chain_mem[OF c 2(2)] b r show ?thesis by auto
  next
    case 3
    with chain_mem[OF c 3(1)] b r show ?thesis by auto
  next
    case 4
    with Cons.IH[OF c] show ?thesis by blast
  qed
qed

lemma chain_pos_unique:
  assumes "chain a bs e" and "(p, n, al) \<in> set bs" and "(p, k, bl) \<in> set bs"
  shows "n = k \<and> al = bl"
  using chain_sep[OF assms] chain_mem[OF assms(1,2)] chain_mem[OF assms(1,3)] by auto

lemma chain_distinct: "chain a bs e \<Longrightarrow> distinct (map fst bs)"
proof (induction bs arbitrary: a)
  case Nil
  then show ?case by simp
next
  case (Cons b bs)
  obtain r j cl where b: "b = (r, j, cl)" by (cases b)
  from Cons.prems b have c: "chain (a + j) bs e" and r: "r = a" and j: "32 \<le> j" by auto
  have "r \<notin> fst ` set bs"
  proof
    assume "r \<in> fst ` set bs"
    then obtain n al where "(r, n, al) \<in> set bs" by auto
    from chain_mem[OF c this] r j show False by auto
  qed
  with Cons.IH[OF c] b show ?case by simp
qed

subsection \<open>Free positions and adjacent free blocks\<close>

lemma free_pos_Nil [simp]: "free_pos [] = {}"
  by (simp add: free_pos_def)

lemma free_pos_Cons [simp]:
  "free_pos ((p, n, al) # bs) = (if al then free_pos bs else insert p (free_pos bs))"
  by (auto simp: free_pos_def)

lemma free_pos_append [simp]: "free_pos (xs @ ys) = free_pos xs \<union> free_pos ys"
  by (auto simp: free_pos_def)

lemma alloc_pos_Nil [simp]: "alloc_pos [] = {}"
  by (simp add: alloc_pos_def)

lemma alloc_pos_Cons [simp]:
  "alloc_pos ((p, n, al) # bs) = (if al then insert p (alloc_pos bs) else alloc_pos bs)"
  by (auto simp: alloc_pos_def)

lemma alloc_pos_append [simp]: "alloc_pos (xs @ ys) = alloc_pos xs \<union> alloc_pos ys"
  by (auto simp: alloc_pos_def)

lemma free_posD: "p \<in> free_pos bs \<Longrightarrow> \<exists>n. (p, n, False) \<in> set bs"
  by (simp add: free_pos_def)

lemma no_adj_free_Cons:
  "no_adj_free (b # bs) \<longleftrightarrow> no_adj_free bs \<and> (bs = [] \<or> snd (snd b) \<or> snd (snd (hd bs)))"
  by (cases b; cases bs) auto

lemma no_adj_free_append:
  "no_adj_free (xs @ ys) \<longleftrightarrow>
     no_adj_free xs \<and> no_adj_free ys \<and>
     (xs = [] \<or> ys = [] \<or> snd (snd (last xs)) \<or> snd (snd (hd ys)))"
proof (induction xs)
  case Nil
  then show ?case by simp
next
  case (Cons x xs)
  show ?case
    by (auto simp: no_adj_free_Cons Cons.IH hd_append)
qed

section \<open>The structure of the heap under updates\<close>

lemma tags_ok_Nil [simp]: "tags_ok m []"
  by (simp add: tags_ok_def)

lemma tags_ok_Cons [simp]:
  "tags_ok m ((p, n, al) # bs) \<longleftrightarrow>
     m (w64 p) = pack (w64 n) al \<and> m (w64 (p + n - 8)) = pack (w64 n) al \<and> tags_ok m bs"
  by (simp add: tags_ok_def)

lemma tags_ok_append [simp]: "tags_ok m (xs @ ys) \<longleftrightarrow> tags_ok m xs \<and> tags_ok m ys"
  by (simp add: tags_ok_def ball_Un)

lemma tags_okD:
  "tags_ok m bs \<Longrightarrow> (p, n, al) \<in> set bs \<Longrightarrow>
   m (w64 p) = pack (w64 n) al \<and> m (w64 (p + n - 8)) = pack (w64 n) al"
  by (auto simp: tags_ok_def)

lemma tags_ok_frame:
  assumes "tags_ok m bs"
    and "\<And>p n al. (p, n, al) \<in> set bs \<Longrightarrow>
           m' (w64 p) = m (w64 p) \<and> m' (w64 (p + n - 8)) = m (w64 (p + n - 8))"
  shows "tags_ok m' bs"
  using assms unfolding tags_ok_def by fastforce

lemma dll_frame:
  assumes "dll m r fl"
    and "\<And>q. q \<in> set (r # fl) \<Longrightarrow>
           m' (w64 (q + 8)) = m (w64 (q + 8)) \<and> m' (w64 (q + 16)) = m (w64 (q + 16))"
  shows "dll m' r fl"
proof -
  have n: "nxt m' q = nxt m q" if "q \<in> set (r # fl)" for q
    using assms(2)[OF that] by (simp add: nxt_def)
  have p: "prv m' q = prv m q" if "q \<in> set (r # rev fl)" for q
  proof -
    from that have "q \<in> set (r # fl)" by simp
    from assms(2)[OF this] show ?thesis by (simp add: prv_def)
  qed
  have "lchain (nxt m') r fl r = lchain (nxt m) r fl r"
    by (rule lchain_cong) (rule n)
  moreover have "lchain (prv m') r (rev fl) r = lchain (prv m) r (rev fl) r"
    by (rule lchain_cong) (rule p)
  ultimately show ?thesis using assms(1) by (simp add: dll_def)
qed

lemma heap_tags_block:
  assumes "heap_tags m L B bs" and "(p, n, al) \<in> set bs"
  shows "L + 40 \<le> p" "p + n \<le> B" "32 \<le> n" "n mod 16 = 0" "p mod 16 = 8" "p + n < 2 ^ 64"
    "m (w64 p) = pack (w64 n) al" "m (w64 (p + n - 8)) = pack (w64 n) al"
proof -
  from assms(1) have c: "chain (L + 40) bs B" and L: "L mod 16 = 0" and B: "B < 2 ^ 64"
    and t: "tags_ok m bs"
    by (simp_all add: heap_tags_def)
  have cm: "L + 40 \<le> p \<and> p + n \<le> B \<and> 32 \<le> n \<and> n mod 16 = 0 \<and> p mod 16 = (L + 40) mod 16"
    by (rule chain_mem[OF c assms(2)])
  from cm show "L + 40 \<le> p" by simp
  from cm show "p + n \<le> B" by simp
  from cm show "32 \<le> n" by simp
  from cm show "n mod 16 = 0" by simp
  from L have "(L + 40) mod 16 = 8" by presburger
  with cm show "p mod 16 = 8" by simp
  from cm B show "p + n < 2 ^ 64" by simp
  from tags_okD[OF t assms(2)]
  show "m (w64 p) = pack (w64 n) al" "m (w64 (p + n - 8)) = pack (w64 n) al" by simp_all
qed

lemma heap_mem_block:
  assumes "heap_mem m L B bs fl" and "(p, n, al) \<in> set bs"
  shows "L + 40 \<le> p" "p + n \<le> B" "32 \<le> n" "n mod 16 = 0" "p mod 16 = 8" "p + n < 2 ^ 64"
    "m (w64 p) = pack (w64 n) al" "m (w64 (p + n - 8)) = pack (w64 n) al"
  using assms heap_tags_block[of m L B bs p n al] by (simp_all add: heap_mem_def)

lemma heap_mem_node:
  assumes "heap_mem m L B bs fl" and "x \<in> set fl"
  obtains n where "(x, n, False) \<in> set bs"
  using assms by (auto simp: heap_mem_def dest: free_posD)

lemma chain_spaced:
  assumes c: "chain (L + 40) bs B" and B: "B < 2 ^ 64" and sub: "set ns \<subseteq> insert (L + 8) (fst ` set bs)"
  shows "spaced ns"
proof -
  have b: "q + 24 < 2 ^ 64 \<and> (q = L + 8 \<or> (\<exists>n al. (q, n, al) \<in> set bs))" if "q \<in> set ns" for q
  proof (cases "q = L + 8")
    case True
    with chain_le[OF c] B show ?thesis by simp
  next
    case False
    with that sub obtain n al where m: "(q, n, al) \<in> set bs" by auto
    from chain_mem[OF c m] B m show ?thesis by auto
  qed
  have s: "q = q' \<or> q + 24 \<le> q' \<or> q' + 24 \<le> q" if "q \<in> set ns" "q' \<in> set ns" for q q'
  proof -
    from b[OF that(1)] b[OF that(2)]
    consider "q = L + 8" "q' = L + 8"
      | n al where "q = L + 8" "(q', n, al) \<in> set bs"
      | n al where "q' = L + 8" "(q, n, al) \<in> set bs"
      | n al n' al' where "(q, n, al) \<in> set bs" "(q', n', al') \<in> set bs"
      by blast
    then show ?thesis
    proof cases
      case 1
      then show ?thesis by simp
    next
      case 2
      with chain_mem[OF c 2(2)] show ?thesis by simp
    next
      case 3
      with chain_mem[OF c 3(2)] show ?thesis by simp
    next
      case 4
      from chain_sep[OF c 4] chain_mem[OF c 4(1)] chain_mem[OF c 4(2)]
      show ?thesis by auto
    qed
  qed
  from b s show ?thesis unfolding spaced_def by blast
qed

lemma heap_mem_spaced:
  assumes "heap_mem m L B bs fl" and "set ns \<subseteq> insert (L + 8) (free_pos bs)"
  shows "spaced ns"
proof -
  from assms(1) have c: "chain (L + 40) bs B" and B: "B < 2 ^ 64"
    by (simp_all add: heap_mem_def heap_tags_def)
  have "free_pos bs \<subseteq> fst ` set bs" by (force simp: free_pos_def)
  with assms(2) have "set ns \<subseteq> insert (L + 8) (fst ` set bs)" by auto
  from chain_spaced[OF c B this] show ?thesis .
qed

lemma heap_mem_root_notin:
  assumes "heap_mem m L B bs fl"
  shows "L + 8 \<notin> free_pos bs" "L + 8 \<notin> set fl"
proof -
  show "L + 8 \<notin> free_pos bs"
  proof
    assume "L + 8 \<in> free_pos bs"
    then obtain n where "(L + 8, n, False) \<in> set bs" by (auto dest: free_posD)
    from heap_mem_block(1)[OF assms this] show False by simp
  qed
  with assms show "L + 8 \<notin> set fl" by (auto simp: heap_mem_def)
qed


lemma heap_tags_upd:
  assumes ht: "heap_tags m L B bs" and c: "c < 2 ^ 64"
    and root: "c \<noteq> L + 8" "c \<noteq> L + 32"
    and blocks: "\<And>p n al. (p, n, al) \<in> set bs \<Longrightarrow> c \<noteq> p \<and> c \<noteq> p + n - 8"
  shows "heap_tags (m(w64 c := v)) L B bs"
proof -
  from ht have B: "B < 2 ^ 64" and ch: "chain (L + 40) bs B" and t: "tags_ok m bs"
    by (simp_all add: heap_tags_def)
  from chain_le[OF ch] B have L: "L + 40 < 2 ^ 64" by simp
  have "tags_ok (m(w64 c := v)) bs"
  proof (rule tags_ok_frame[OF t])
    fix p n al assume b: "(p, n, al) \<in> set bs"
    from heap_tags_block[OF ht b] blocks[OF b] c
    show "(m(w64 c := v)) (w64 p) = m (w64 p) \<and>
          (m(w64 c := v)) (w64 (p + n - 8)) = m (w64 (p + n - 8))"
      by (simp add: w64_inj)
  qed
  with ht c root L show ?thesis by (simp add: heap_tags_def w64_inj)
qed

lemma heap_tags_link_upd:
  assumes ht: "heap_tags m L B bs" and q: "q = L + 8 \<or> q \<in> free_pos bs"
    and c: "c = q + 8 \<or> c = q + 16"
  shows "heap_tags (m(w64 c := v)) L B bs"
proof -
  from ht have B: "B < 2 ^ 64" and ch: "chain (L + 40) bs B"
    by (simp_all add: heap_tags_def)
  from q show ?thesis
  proof
    assume q: "q = L + 8"
    show ?thesis
    proof (rule heap_tags_upd[OF ht])
      from chain_le[OF ch] B q c show "c < 2 ^ 64" by auto
      from q c show "c \<noteq> L + 8" "c \<noteq> L + 32" by auto
      fix p n al assume "(p, n, al) \<in> set bs"
      from heap_tags_block[OF ht this] q c show "c \<noteq> p \<and> c \<noteq> p + n - 8" by auto
    qed
  next
    assume "q \<in> free_pos bs"
    then obtain k where qb: "(q, k, False) \<in> set bs" by (auto dest: free_posD)
    note g = heap_tags_block[OF ht qb]
    show ?thesis
    proof (rule heap_tags_upd[OF ht])
      from g c show "c < 2 ^ 64" by auto
      from g c show "c \<noteq> L + 8" "c \<noteq> L + 32" by auto
      fix p n al assume b: "(p, n, al) \<in> set bs"
      from chain_sep[OF ch qb b] heap_tags_block[OF ht b] g c
      show "c \<noteq> p \<and> c \<noteq> p + n - 8" by auto
    qed
  qed
qed

lemma heap_mem_add:
  assumes hm: "heap_mem m L B bs fl" and x: "x \<in> free_pos bs" and nin: "x \<notin> set fl"
  defines "t \<equiv> last ((L + 8) # fl)"
  shows "heap_mem (m(w64 (t + 16) := w64 x, w64 (x + 16) := w64 (L + 8),
                     w64 (L + 8 + 8) := w64 x, w64 (x + 8) := w64 t)) L B bs (fl @ [x])"
proof -
  from hm have ht: "heap_tags m L B bs" and d: "dll m (L + 8) fl" and dis: "distinct fl"
    and sub: "set fl \<subseteq> free_pos bs"
    by (simp_all add: heap_mem_def)
  have rn: "L + 8 \<notin> set fl" "L + 8 \<notin> free_pos bs" using heap_mem_root_notin[OF hm] by simp_all
  have tin: "t \<in> set ((L + 8) # fl)" unfolding t_def by (rule last_in_set) simp
  then have tq: "t = L + 8 \<or> t \<in> free_pos bs" using sub by auto
  have sp: "spaced (x # (L + 8) # fl)"
    by (rule heap_mem_spaced[OF hm]) (use x sub in auto)
  have "dll (m(w64 (t + 16) := w64 x, w64 (x + 16) := w64 (L + 8),
              w64 (L + 8 + 8) := w64 x, w64 (x + 8) := w64 t)) (L + 8) (fl @ [x])"
    unfolding t_def by (rule dll_add[OF d sp]) (use nin rn x dis in auto)
  moreover have "heap_tags (m(w64 (t + 16) := w64 x, w64 (x + 16) := w64 (L + 8),
              w64 (L + 8 + 8) := w64 x, w64 (x + 8) := w64 t)) L B bs"
    by (intro heap_tags_link_upd[where q=x] heap_tags_link_upd[where q=t]
          heap_tags_link_upd[where q="L + 8"] ht tq x disjI1 disjI2 refl)
  ultimately show ?thesis using dis nin sub x by (simp add: heap_mem_def)
qed

lemma heap_mem_remove:
  assumes hm: "heap_mem m L B bs (ys @ x # zs)"
  defines "P \<equiv> last ((L + 8) # ys)" and "N \<equiv> hd (zs @ [L + 8])"
  shows "m (w64 (x + 8)) = w64 P" and "m (w64 (x + 16)) = w64 N"
    and "heap_mem (m(w64 (P + 16) := w64 N, w64 (N + 8) := w64 P)) L B bs (ys @ zs)"
    and "P = L + 8 \<or> P \<in> free_pos bs" and "N = L + 8 \<or> N \<in> free_pos bs"
proof -
  from hm have ht: "heap_tags m L B bs" and d: "dll m (L + 8) (ys @ x # zs)"
    and dis: "distinct (ys @ x # zs)" and sub: "set (ys @ x # zs) \<subseteq> free_pos bs"
    by (simp_all add: heap_mem_def)
  have rn: "L + 8 \<notin> set (ys @ x # zs)" using heap_mem_root_notin[OF hm] by simp
  have sp: "spaced ((L + 8) # ys @ x # zs)"
    by (rule heap_mem_spaced[OF hm]) (use sub in auto)
  have dis': "distinct ((L + 8) # ys @ x # zs)" using dis rn by simp
  from dll_remove[OF d sp dis']
  have 1: "prv m x = w64 P" and 2: "nxt m x = w64 N"
    and 3: "dll (m(w64 (P + 16) := w64 N, w64 (N + 8) := w64 P)) (L + 8) (ys @ zs)"
    by (simp_all add: P_def N_def)
  from 1 show "m (w64 (x + 8)) = w64 P" by (simp add: prv_def)
  from 2 show "m (w64 (x + 16)) = w64 N" by (simp add: nxt_def)
  have "P \<in> set ((L + 8) # ys)" unfolding P_def by (rule last_in_set) simp
  then show Pq: "P = L + 8 \<or> P \<in> free_pos bs" using sub by auto
  have "N \<in> set (zs @ [L + 8])" unfolding N_def by (rule hd_in_set) simp
  then show Nq: "N = L + 8 \<or> N \<in> free_pos bs" using sub by auto
  have "heap_tags (m(w64 (P + 16) := w64 N, w64 (N + 8) := w64 P)) L B bs"
    by (intro heap_tags_link_upd[where q=P] heap_tags_link_upd[where q=N] ht Pq Nq disjI1 disjI2 refl)
  with 3 dis sub show "heap_mem (m(w64 (P + 16) := w64 N, w64 (N + 8) := w64 P)) L B bs (ys @ zs)"
    by (auto simp: heap_mem_def)
qed


lemma chain_order:
  assumes "chain a (xs @ ys) e" and "(p, n, al) \<in> set xs" and "(q, k, bl) \<in> set ys"
  shows "p + n \<le> q"
proof -
  from assms(1) obtain m where "chain a xs m" and "chain m ys e"
    by (auto simp: chain_append)
  from chain_mem[OF this(1) assms(2)] chain_mem[OF this(2) assms(3)] show ?thesis by simp
qed

lemma heap_mem_replace:
  assumes hm: "heap_mem m L B (xs @ mid @ ys) fl"
    and c': "chain (L + 40) (xs @ mid' @ ys) B'" and B': "B' < 2 ^ 64"
    and fl: "set fl \<subseteq> free_pos xs \<union> free_pos ys"
    and tg: "tags_ok m' mid'"
    and fr: "\<And>c. c < 2 ^ 64 \<Longrightarrow> \<forall>(p, n, al) \<in> set mid'. c < p \<or> p + n \<le> c \<Longrightarrow>
                m' (w64 c) = m (w64 c)"
  shows "heap_mem m' L B' (xs @ mid' @ ys) fl"
proof -
  from hm have ht: "heap_tags m L B (xs @ mid @ ys)" and d: "dll m (L + 8) fl"
    and dis: "distinct fl"
    by (simp_all add: heap_mem_def)
  from ht have L: "L mod 16 = 0" and r1: "m (w64 (L + 8)) = pack 0 True"
    and r2: "m (w64 (L + 32)) = pack 0 True" and t: "tags_ok m (xs @ mid @ ys)"
    by (simp_all add: heap_tags_def)
  have low: "\<forall>(p, n, al) \<in> set mid'. c < p \<or> p + n \<le> c" if "c < L + 40" for c
  proof (clarify)
    fix p n al assume "(p, n, al) \<in> set mid'" "\<not> p + n \<le> c"
    then have "(p, n, al) \<in> set (xs @ mid' @ ys)" by simp
    from chain_mem[OF c' this] that show "c < p" by simp
  qed
  have inx: "\<forall>(q, k, bl) \<in> set mid'. c < q \<or> q + k \<le> c"
    if "(p, n, al) \<in> set xs" "c < p + n" for c p n al
  proof (clarify)
    fix q k bl assume "(q, k, bl) \<in> set mid'" "\<not> q + k \<le> c"
    then have "(q, k, bl) \<in> set (mid' @ ys)" by simp
    from chain_order[OF c' that(1) this] that(2) show "c < q" by simp
  qed
  have iny: "\<forall>(q, k, bl) \<in> set mid'. c < q \<or> q + k \<le> c"
    if "(p, n, al) \<in> set ys" "p \<le> c" for c p n al
  proof (clarify)
    fix q k bl assume m: "(q, k, bl) \<in> set mid'" "\<not> q + k \<le> c"
    from c' have "chain (L + 40) ((xs @ mid') @ ys) B'" by simp
    from chain_order[OF this _ that(1), of q k bl] m that(2) show "c < q" by simp
  qed
  have bnd: "p + n \<le> B' \<and> 32 \<le> n" if "(p, n, al) \<in> set xs \<union> set ys" for p n al
  proof -
    from that have "(p, n, al) \<in> set (xs @ mid' @ ys)" by auto
    from chain_mem[OF c' this] show ?thesis by simp
  qed
  have keep: "m' (w64 c) = m (w64 c)"
    if "(p, n, al) \<in> set xs \<union> set ys" "p \<le> c" "c < p + n" for c p n al
  proof -
    from bnd[OF that(1)] that(3) B' have cb: "c < 2 ^ 64" by simp
    from that(1) show ?thesis
    proof
      assume "(p, n, al) \<in> set xs"
      from fr[OF cb inx[OF this that(3)]] show ?thesis .
    next
      assume "(p, n, al) \<in> set ys"
      from fr[OF cb iny[OF this that(2)]] show ?thesis .
    qed
  qed
  from chain_le[OF c'] B' have Lb: "L + 40 < 2 ^ 64" by simp
  have txy: "tags_ok m' (xs @ ys)"
  proof (rule tags_ok_frame)
    from t show "tags_ok m (xs @ ys)" by simp
    fix p n al assume b: "(p, n, al) \<in> set (xs @ ys)"
    then have b': "(p, n, al) \<in> set xs \<union> set ys" by simp
    from bnd[OF b'] have "p \<le> p + n - 8" "p + n - 8 < p + n" "p < p + n" by linarith+
    with keep[OF b', of p] keep[OF b', of "p + n - 8"]
    show "m' (w64 p) = m (w64 p) \<and> m' (w64 (p + n - 8)) = m (w64 (p + n - 8))" by simp
  qed
  have "m' (w64 (L + 8)) = m (w64 (L + 8))" by (rule fr[OF _ low]) (use Lb in simp_all)
  moreover have "m' (w64 (L + 32)) = m (w64 (L + 32))" by (rule fr[OF _ low]) (use Lb in simp_all)
  ultimately have ht': "heap_tags m' L B' (xs @ mid' @ ys)"
    using L B' c' r1 r2 txy tg by (simp add: heap_tags_def)
  have d': "dll m' (L + 8) fl"
  proof (rule dll_frame[OF d])
    fix q assume "q \<in> set ((L + 8) # fl)"
    then consider "q = L + 8" | "q \<in> free_pos xs \<union> free_pos ys" using fl by auto
    then show "m' (w64 (q + 8)) = m (w64 (q + 8)) \<and> m' (w64 (q + 16)) = m (w64 (q + 16))"
    proof cases
      case 1
      have "m' (w64 (L + 8 + 8)) = m (w64 (L + 8 + 8))" by (rule fr[OF _ low]) (use Lb in simp_all)
      moreover have "m' (w64 (L + 8 + 16)) = m (w64 (L + 8 + 16))"
        by (rule fr[OF _ low]) (use Lb in simp_all)
      ultimately show ?thesis using 1 by simp
    next
      case 2
      then obtain n where b: "(q, n, False) \<in> set xs \<union> set ys"
        by (auto dest: free_posD)
      from bnd[OF b] have "q + 8 < q + n" "q + 16 < q + n" by linarith+
      with keep[OF b, of "q + 8"] keep[OF b, of "q + 16"] show ?thesis by simp
    qed
  qed
  from ht' d' dis fl show ?thesis by (auto simp: heap_mem_def)
qed

section \<open>The list and block operations on a structured heap\<close>

lemma valid_upd [simp]:
  "valid (s\<lparr>mem := m\<rparr>) a = valid s a"
  "valid (s\<lparr>counter_global := c\<rparr>) a = valid s a"
  by (simp_all add: valid_def)

lemma load_ok: "valid s a \<Longrightarrow> load s a = Inr (mem s a)"
  by (simp add: load_def)

lemma store_ok: "valid s a \<Longrightarrow> store s a v = Inr (s\<lparr>mem := (mem s)(a := v)\<rparr>)"
  by (simp add: store_def)

lemma same_region_refl [simp]: "same_region s s"
  by (simp add: same_region_def)

lemma same_region_trans: "same_region s s1 \<Longrightarrow> same_region s1 s2 \<Longrightarrow> same_region s s2"
  by (simp add: same_region_def)

lemma same_region_upd [simp]:
  "same_region s (s'\<lparr>mem := m\<rparr>) = same_region s s'"
  "same_region s (s'\<lparr>counter_global := c\<rparr>) = same_region s s'"
  by (simp_all add: same_region_def)

lemma write_block_ok:
  assumes "valid s (w64 p)" and "valid s (w64 (p + n - 8))" and "n mod 16 = 0" and "16 \<le> n"
    and "n < 2 ^ 64" and "w64 p \<noteq> free_root s"
  shows "write_block (w64 p) (w64 n) al s =
         Inr (s\<lparr>mem := (mem s)(w64 p := pack (w64 n) al, w64 (p + n - 8) := pack (w64 n) al)\<rparr>)"
proof -
  from assms(4) have e: "p + 8 + n - 16 = p + n - 8" by simp
  from assms(4) have "w64 p + 8 + w64 n - 16 = w64 (p + 8 + n - 16)"
    by (simp add: w64_add w64_add_num w64_sub_num)
  with e have "w64 p + 8 + w64 n - 16 = w64 (p + n - 8)" by simp
  with assms show ?thesis
    by (simp add: write_block_def store_ok get_size_def load_ok extract_size_w64
        header_to_payload_def dsize_def wsize_def)
qed

lemma add_to_list_ok:
  assumes "free_root s = w64 r" and "mem s (w64 (r + 8)) = w64 t"
    and "valid s (w64 (r + 8))" and "valid s (w64 (t + 16))"
    and "valid s (w64 (x + 16))" and "valid s (w64 (x + 8))"
  shows "add_to_list (w64 x) s =
         Inr (s\<lparr>mem := (mem s)(w64 (t + 16) := w64 x, w64 (x + 16) := w64 r,
                                 w64 (r + 8) := w64 x, w64 (x + 8) := w64 t),
                counter_global := counter_global s + 1\<rparr>)"
  using assms
  by (simp add: add_to_list_def prev_field_def next_field_def load_ok store_ok w64_add_num)

lemma remove_from_list_ok:
  assumes "mem s (w64 (x + 8)) = w64 P" and "mem s (w64 (x + 16)) = w64 N"
    and "valid s (w64 (x + 8))" and "valid s (w64 (x + 16))"
    and "valid s (w64 (P + 16))" and "valid s (w64 (N + 8))"
  shows "remove_from_list (w64 x) s =
         Inr (s\<lparr>mem := (mem s)(w64 (P + 16) := w64 N, w64 (N + 8) := w64 P),
                counter_global := counter_global s - 1\<rparr>)"
  using assms
  by (simp add: remove_from_list_def prev_field_def next_field_def load_ok store_ok w64_add_num)

lemma heap_struct_upd [simp]:
  "heap_struct (s\<lparr>mem := m\<rparr>) bs fl \<longleftrightarrow>
     prologue s = mem_start s \<and> free_root s = mem_start s + 8 \<and>
     heap_mem m (unat (mem_start s)) (unat (mem_brk s)) bs fl"
  "heap_struct (s\<lparr>counter_global := c\<rparr>) bs fl \<longleftrightarrow> heap_struct s bs fl"
  by (simp_all add: heap_struct_def)

lemma chain_end_mod: "chain a bs e \<Longrightarrow> e mod 16 = a mod 16"
proof (induction bs arbitrary: a)
  case Nil
  then show ?case by simp
next
  case (Cons b bs)
  obtain p n al where b: "b = (p, n, al)" by (cases b)
  from Cons.prems b have c: "chain (a + n) bs e" and n: "n mod 16 = 0" by simp_all
  from n have "(a + n) mod 16 = a mod 16" by (rule mod_add_zero)
  with Cons.IH[OF c] show ?case by simp
qed

lemma heap_struct_root:
  assumes "heap_struct s bs fl"
  shows "free_root s = w64 (unat (mem_start s) + 8)" and "mem_start s = w64 (unat (mem_start s))"
    and "mem_brk s = w64 (unat (mem_brk s))" and "unat (mem_start s) + 40 \<le> unat (mem_brk s)"
    and "unat (mem_start s) mod 16 = 0" and "unat (mem_brk s) mod 16 = 8"
    and "heap_mem (mem s) (unat (mem_start s)) (unat (mem_brk s)) bs fl"
proof -
  from assms have hm: "heap_mem (mem s) (unat (mem_start s)) (unat (mem_brk s)) bs fl"
    and fr: "free_root s = mem_start s + 8"
    by (simp_all add: heap_struct_def)
  show "heap_mem (mem s) (unat (mem_start s)) (unat (mem_brk s)) bs fl" by (rule hm)
  show "mem_start s = w64 (unat (mem_start s))" "mem_brk s = w64 (unat (mem_brk s))"
    by (simp_all add: w64_unat)
  have "mem_start s + 8 = w64 (unat (mem_start s)) + 8" by (simp add: w64_unat)
  with fr show "free_root s = w64 (unat (mem_start s) + 8)" by (simp add: w64_add_num)
  from hm have c: "chain (unat (mem_start s) + 40) bs (unat (mem_brk s))"
    and L: "unat (mem_start s) mod 16 = 0"
    by (simp_all add: heap_mem_def heap_tags_def)
  from chain_le[OF c] show "unat (mem_start s) + 40 \<le> unat (mem_brk s)" .
  from L show "unat (mem_start s) mod 16 = 0" .
  have "unat (mem_brk s) mod 16 = (unat (mem_start s) + 40) mod 16"
    by (rule chain_end_mod[OF c])
  with L show "unat (mem_brk s) mod 16 = 8" by presburger
qed

lemma valid_cell:
  assumes "c mod 8 = 0" and "unat (mem_start s) \<le> c" and "c + 8 \<le> unat (mem_brk s)"
  shows "valid s (w64 c)"
proof -
  from assms(3) unat_bound[of "mem_brk s"] have "c < 2 ^ 64" by simp
  with assms show ?thesis by (simp add: valid_w64)
qed

lemma heap_struct_valid_block:
  assumes hs: "heap_struct s bs fl" and b: "(p, n, al) \<in> set bs"
    and k: "k mod 8 = 0" "k + 8 \<le> n"
  shows "valid s (w64 (p + k))"
proof (rule valid_cell)
  note g = heap_mem_block[OF heap_struct_root(7)[OF hs] b]
  from g(5) k(1) show "(p + k) mod 8 = 0" by presburger
  from g(1) show "unat (mem_start s) \<le> p + k" by simp
  from g(2) k(2) show "p + k + 8 \<le> unat (mem_brk s)" by simp
qed

lemma heap_struct_valid_root:
  assumes hs: "heap_struct s bs fl" and k: "k mod 8 = 0" "k \<le> 32"
  shows "valid s (w64 (unat (mem_start s) + k))"
proof (rule valid_cell)
  from heap_struct_root(5)[OF hs] k(1) show "(unat (mem_start s) + k) mod 8 = 0" by presburger
  show "unat (mem_start s) \<le> unat (mem_start s) + k" by simp
  from heap_struct_root(4)[OF hs] k(2) show "unat (mem_start s) + k + 8 \<le> unat (mem_brk s)" by simp
qed

lemma heap_struct_valid_node:
  assumes hs: "heap_struct s bs fl" and q: "q = unat (mem_start s) + 8 \<or> q \<in> free_pos bs"
  shows "valid s (w64 (q + 8))" and "valid s (w64 (q + 16))"
proof -
  from q have "valid s (w64 (q + 8)) \<and> valid s (w64 (q + 16))"
  proof
    assume "q = unat (mem_start s) + 8"
    with heap_struct_valid_root[OF hs, of 16] heap_struct_valid_root[OF hs, of 24]
    show ?thesis by (simp add: add.assoc)
  next
    assume "q \<in> free_pos bs"
    then obtain n where b: "(q, n, False) \<in> set bs" by (auto dest: free_posD)
    from heap_mem_block(3)[OF heap_struct_root(7)[OF hs] b]
      heap_struct_valid_block[OF hs b, of 8] heap_struct_valid_block[OF hs b, of 16]
    show ?thesis by simp
  qed
  then show "valid s (w64 (q + 8))" and "valid s (w64 (q + 16))" by simp_all
qed


lemma add_to_list_struct:
  assumes hs: "heap_struct s bs fl" and x: "x \<in> free_pos bs" and nin: "x \<notin> set fl"
  shows "\<exists>s'. add_to_list (w64 x) s = Inr s' \<and> heap_struct s' bs (fl @ [x]) \<and> same_region s s'"
proof -
  let ?L = "unat (mem_start s)" and ?B = "unat (mem_brk s)"
  let ?t = "last ((?L + 8) # fl)"
  note r = heap_struct_root[OF hs]
  from r(7) have d: "dll (mem s) (?L + 8) fl" and sub: "set fl \<subseteq> free_pos bs"
    by (simp_all add: heap_mem_def)
  have "?t \<in> set ((?L + 8) # fl)" by (rule last_in_set) simp
  with sub have tq: "?t = ?L + 8 \<or> ?t \<in> free_pos bs" by auto
  have "prv (mem s) (?L + 8) = w64 ?t" by (rule dll_hd_last(2)[OF d])
  then have m: "mem s (w64 (?L + 8 + 8)) = w64 ?t" by (simp add: prv_def)
  have v: "valid s (w64 (?L + 8 + 8))" "valid s (w64 (?t + 16))"
    "valid s (w64 (x + 16))" "valid s (w64 (x + 8))"
    using heap_struct_valid_node[OF hs, of "?L + 8"] heap_struct_valid_node[OF hs tq]
      heap_struct_valid_node[OF hs, of x] x by simp_all
  from hs have p: "prologue s = mem_start s" "free_root s = mem_start s + 8"
    by (simp_all add: heap_struct_def)
  show ?thesis
    unfolding add_to_list_ok[OF r(1) m v]
    using heap_mem_add[OF r(7) x nin] p by simp
qed

lemma remove_from_list_struct:
  assumes hs: "heap_struct s bs (ys @ x # zs)"
  shows "\<exists>s'. remove_from_list (w64 x) s = Inr s' \<and> heap_struct s' bs (ys @ zs) \<and> same_region s s'"
proof -
  let ?L = "unat (mem_start s)" and ?B = "unat (mem_brk s)"
  note r = heap_struct_root[OF hs]
  note h = heap_mem_remove[OF r(7)]
  from r(7) have "x \<in> free_pos bs" by (simp add: heap_mem_def)
  then have v: "valid s (w64 (x + 8))" "valid s (w64 (x + 16))"
    "valid s (w64 (last ((?L + 8) # ys) + 16))" "valid s (w64 (hd (zs @ [?L + 8]) + 8))"
    using heap_struct_valid_node[OF hs, of x] heap_struct_valid_node[OF hs h(4)]
      heap_struct_valid_node[OF hs h(5)] by simp_all
  from hs have p: "prologue s = mem_start s" "free_root s = mem_start s + 8"
    by (simp_all add: heap_struct_def)
  show ?thesis
    unfolding remove_from_list_ok[OF h(1,2) v]
    using h(3) p by simp
qed


lemma remove_from_list_struct1:
  assumes hs: "heap_struct s bs fl" and x: "x \<in> set fl"
  shows "\<exists>s'. remove_from_list (w64 x) s = Inr s' \<and> heap_struct s' bs (remove1 x fl) \<and>
              same_region s s'"
proof -
  from heap_struct_root(7)[OF hs] have dis: "distinct fl" by (simp add: heap_mem_def)
  from x obtain ys zs where fl: "fl = ys @ x # zs" by (auto dest: split_list)
  with dis have "x \<notin> set ys" by auto
  then have "remove1 x fl = ys @ zs" using fl by (simp add: remove1_append)
  with remove_from_list_struct[of s bs ys x zs] hs fl show ?thesis by simp
qed

lemma write_block_struct:
  assumes hs: "heap_struct s (xs @ mid @ ys) fl"
    and c': "chain (unat (mem_start s) + 40) (xs @ [(p, n, al)] @ ys) (unat (mem_brk s))"
    and fl: "set fl \<subseteq> free_pos xs \<union> free_pos ys"
  shows "\<exists>s'. write_block (w64 p) (w64 n) al s = Inr s' \<and>
              heap_struct s' (xs @ [(p, n, al)] @ ys) fl \<and> same_region s s'"
proof -
  let ?L = "unat (mem_start s)" and ?B = "unat (mem_brk s)"
  let ?m = "(mem s)(w64 p := pack (w64 n) al, w64 (p + n - 8) := pack (w64 n) al)"
  note r = heap_struct_root[OF hs]
  have B: "?B < 2 ^ 64" by (rule unat_bound)
  have "(p, n, al) \<in> set (xs @ [(p, n, al)] @ ys)" by simp
  from chain_mem[OF c' this] have g: "?L + 40 \<le> p" "p + n \<le> ?B" "32 \<le> n" "n mod 16 = 0"
    "p mod 16 = (?L + 40) mod 16" by simp_all
  from r(5) have "(?L + 40) mod 16 = 8" using mod_add_zero'[of ?L 16 40] by simp
  with g(5) have p16: "p mod 16 = 8" by simp
  then have p8: "p mod 8 = 0" by (rule mod16_8)
  have v1: "valid s (w64 p)" by (rule valid_cell) (use p8 g B in simp_all)
  have "(p + n - 8) mod 8 = 0" by (rule footer_mod8[OF p16 g(4)]) (use g(3) in simp)
  then have v2: "valid s (w64 (p + n - 8))" by (rule valid_cell) (use g B in simp_all)
  from g B have nb: "n < 2 ^ 64" "p < 2 ^ 64" "?L + 8 < 2 ^ 64" by simp_all
  from g have "p \<noteq> ?L + 8" by simp
  with r(1) nb have nr: "w64 p \<noteq> free_root s" by (simp add: w64_inj)
  from g(3) have n16: "16 \<le> n" by simp
  have tg: "tags_ok ?m [(p, n, al)]" by simp
  have fr: "?m (w64 c) = mem s (w64 c)"
    if "c < 2 ^ 64" "\<forall>(q, k, bl) \<in> set [(p, n, al)]. c < q \<or> q + k \<le> c" for c
  proof -
    from that(2) have "c < p \<or> p + n \<le> c" by simp
    with g have "c \<noteq> p" "c \<noteq> p + n - 8" by auto
    moreover from g B have "p + n - 8 < 2 ^ 64" by simp
    ultimately show ?thesis using that(1) nb by (simp add: w64_inj)
  qed
  from hs have pf: "prologue s = mem_start s" "free_root s = mem_start s + 8"
    by (simp_all add: heap_struct_def)
  have hm': "heap_mem ?m ?L ?B (xs @ [(p, n, al)] @ ys) fl"
    by (rule heap_mem_replace[OF r(7) c' B fl tg fr])
  have "heap_struct (s\<lparr>mem := ?m\<rparr>) (xs @ [(p, n, al)] @ ys) fl"
    unfolding heap_struct_upd using hm' pf by (intro conjI)
  then show ?thesis
    unfolding write_block_ok[OF v1 v2 g(4) n16 nb(1) nr] by (intro exI[of _ "s\<lparr>mem := ?m\<rparr>"]) simp
qed

section \<open>Coalescing\<close>

lemma heap_struct_chain:
  "heap_struct s bs fl \<Longrightarrow> chain (unat (mem_start s) + 40) bs (unat (mem_brk s))"
  by (simp add: heap_struct_def heap_mem_def heap_tags_def)

lemma heap_struct_block:
  assumes "heap_struct s bs fl" and "(p, n, al) \<in> set bs"
  shows "unat (mem_start s) + 40 \<le> p" "p + n \<le> unat (mem_brk s)" "32 \<le> n" "n mod 16 = 0"
    "p mod 16 = 8" "p + n < 2 ^ 64"
    "mem s (w64 p) = pack (w64 n) al" "mem s (w64 (p + n - 8)) = pack (w64 n) al"
  using heap_mem_block[OF heap_struct_root(7)[OF assms(1)] assms(2)] by simp_all

lemma header_read:
  assumes hs: "heap_struct s bs fl" and b: "(p, n, al) \<in> set bs"
  shows "load s (w64 p) = Inr (pack (w64 n) al)"
    and "get_size s (w64 p) = Inr (w64 n)"
    and "get_alloc s (w64 p) = Inr al"
    and "get_next_block s (w64 p) = Inr (w64 (p + n))"
proof -
  note g = heap_struct_block[OF hs b]
  from heap_struct_valid_block[OF hs b, of 0] g(3) have v: "valid s (w64 p)" by simp
  from g have nb: "n < 2 ^ 64" by simp
  from v g(7) show l: "load s (w64 p) = Inr (pack (w64 n) al)" by (simp add: load_ok)
  from l g(4) nb show "get_size s (w64 p) = Inr (w64 n)"
    by (simp add: get_size_def extract_size_w64)
  from l g(4) nb show "get_alloc s (w64 p) = Inr al"
    by (simp add: get_alloc_def extract_alloc_w64)
  from l g(4) nb show "get_next_block s (w64 p) = Inr (w64 (p + n))"
    by (simp add: get_next_block_def get_size_def extract_size_w64 w64_add)
qed

lemma block_in_heap:
  assumes hs: "heap_struct s bs fl" and b: "(p, n, al) \<in> set bs"
  shows "in_heap s (w64 p)" and "w64 p \<noteq> 0"
proof -
  note g = heap_struct_block[OF hs b]
  from g have pb: "p < 2 ^ 64" "0 < unat (mem_brk s)" "p < unat (mem_brk s)"
    "unat (mem_start s) \<le> p" "p \<noteq> 0"
    by simp_all
  then show "in_heap s (w64 p)" by (simp add: in_heap_w64)
  from pb show "w64 p \<noteq> 0" by (simp add: w64_eq_0)
qed

lemma prev_footer_some:
  assumes hs: "heap_struct s (xs @ (pp, pn, pal) # (p, n, al) # ys) fl"
  shows "load s (find_prev_footer (w64 p)) = Inr (pack (w64 pn) pal)"
    and "get_prev_block s (w64 p) = Inr (w64 pp)"
proof -
  have b: "(pp, pn, pal) \<in> set (xs @ (pp, pn, pal) # (p, n, al) # ys)" by simp
  note g = heap_struct_block[OF hs b]
  from heap_struct_chain[OF hs] have e: "p = pp + pn" by (simp add: chain_split)
  from g(3) e have a: "find_prev_footer (w64 p) = w64 (pp + pn - 8)"
    by (simp add: find_prev_footer_def w64_sub_num)
  have "(pn - 8) mod 8 = 0" using mod16_0_8[OF g(4)] by (rule mod8_sub)
  from heap_struct_valid_block[OF hs b this] g(3) have "valid s (w64 (pp + pn - 8))" by simp
  with g(8) a show l: "load s (find_prev_footer (w64 p)) = Inr (pack (w64 pn) pal)"
    by (simp add: load_ok)
  from g have "pn < 2 ^ 64" by simp
  with l g(4) e show "get_prev_block s (w64 p) = Inr (w64 pp)"
    by (simp add: get_prev_block_def extract_size_w64 w64_sub)
qed

lemma prev_footer_none:
  assumes hs: "heap_struct s ((p, n, al) # ys) fl"
  shows "load s (find_prev_footer (w64 p)) = Inr (pack 0 True)"
    and "get_prev_block s (w64 p) = Inr (w64 p)"
proof -
  from heap_struct_chain[OF hs] have e: "p = unat (mem_start s) + 40" by simp
  then have a: "find_prev_footer (w64 p) = w64 (unat (mem_start s) + 32)"
    by (simp add: find_prev_footer_def w64_sub_num add.commute)
  from heap_struct_root(7)[OF hs] have "mem s (w64 (unat (mem_start s) + 32)) = pack 0 True"
    by (simp add: heap_mem_def heap_tags_def)
  with heap_struct_valid_root[OF hs, of 32] a
  show l: "load s (find_prev_footer (w64 p)) = Inr (pack 0 True)"
    by (simp add: load_ok)
  then show "get_prev_block s (w64 p) = Inr (w64 p)"
    by (simp add: get_prev_block_def)
qed

text \<open>The two tests of \<^verbatim>\<open>coalesce\<close>, as the model writes them.\<close>

lemma coalesce_prev_alloc:
  assumes hs: "heap_struct s (xs @ (p, n, al) # ys) fl" and a: "xs = [] \<or> snd (snd (last xs))"
  shows "\<exists>pb. get_prev_block s (w64 p) = Inr pb \<and>
           (if in_heap s pb \<and> pb \<noteq> 0
            then rbind (load s (find_prev_footer (w64 p))) (\<lambda>w. Inr (extract_alloc w))
            else Inr True) = Inr True"
proof (cases xs rule: rev_cases)
  case Nil
  with hs prev_footer_none[of s p n al ys fl] show ?thesis by simp
next
  case (snoc xs' b)
  obtain pp pn pal where b: "b = (pp, pn, pal)" by (cases b)
  with a snoc have pal by simp
  from hs snoc b have hs': "heap_struct s (xs' @ (pp, pn, pal) # (p, n, al) # ys) fl" by simp
  have "(pp, pn, pal) \<in> set (xs' @ (pp, pn, pal) # (p, n, al) # ys)" by simp
  from heap_struct_block[OF hs' this] have "pn mod 16 = 0" "pn < 2 ^ 64" by simp_all
  with prev_footer_some[OF hs'] \<open>pal\<close> show ?thesis by (simp add: extract_alloc_w64)
qed

lemma coalesce_prev_free:
  assumes hs: "heap_struct s (xs @ (pp, pn, False) # (p, n, al) # ys) fl"
  shows "get_prev_block s (w64 p) = Inr (w64 pp)"
    and "(if in_heap s (w64 pp) \<and> w64 pp \<noteq> 0
          then rbind (load s (find_prev_footer (w64 p))) (\<lambda>w. Inr (extract_alloc w))
          else Inr True) = Inr False"
proof -
  have b: "(pp, pn, False) \<in> set (xs @ (pp, pn, False) # (p, n, al) # ys)" by simp
  from heap_struct_block[OF hs b] have "pn mod 16 = 0" "pn < 2 ^ 64" by simp_all
  with prev_footer_some[OF hs] block_in_heap[OF hs b]
  show "(if in_heap s (w64 pp) \<and> w64 pp \<noteq> 0
          then rbind (load s (find_prev_footer (w64 p))) (\<lambda>w. Inr (extract_alloc w))
          else Inr True) = Inr False"
    by (simp add: extract_alloc_w64)
  from prev_footer_some[OF hs] show "get_prev_block s (w64 p) = Inr (w64 pp)" by simp
qed


lemma coalesce_next_alloc:
  assumes hs: "heap_struct s (xs @ (p, n, al) # ys) fl" and a: "ys = [] \<or> snd (snd (hd ys))"
  shows "(if in_heap s (w64 (p + n)) \<and> w64 (p + n) \<noteq> 0 then get_alloc s (w64 (p + n))
          else Inr True) = Inr True"
proof (cases ys)
  case Nil
  with heap_struct_chain[OF hs] have e: "p + n = unat (mem_brk s)" by (simp add: chain_split)
  from heap_struct_root(4)[OF hs] have "0 < unat (mem_brk s)" by simp
  then have "\<not> in_heap s (w64 (unat (mem_brk s)))"
    using unat_bound[of "mem_brk s"] by (simp add: in_heap_w64)
  with e show ?thesis by simp
next
  case (Cons b ys')
  obtain np nn nal where b: "b = (np, nn, nal)" by (cases b)
  with a Cons have nal by simp
  from heap_struct_chain[OF hs] Cons b have e: "np = p + n" by (simp add: chain_split)
  have "(np, nn, nal) \<in> set (xs @ (p, n, al) # ys)" using Cons b by simp
  from header_read(3)[OF hs this] e \<open>nal\<close> show ?thesis by simp
qed

lemma coalesce_next_free:
  assumes hs: "heap_struct s (xs @ (p, n, al) # (np, nn, False) # ys) fl"
  shows "np = p + n"
    and "(if in_heap s (w64 (p + n)) \<and> w64 (p + n) \<noteq> 0 then get_alloc s (w64 (p + n))
          else Inr True) = Inr False"
proof -
  from heap_struct_chain[OF hs] show e: "np = p + n" by (simp add: chain_split)
  have b: "(np, nn, False) \<in> set (xs @ (p, n, al) # (np, nn, False) # ys)" by simp
  from header_read(3)[OF hs b] block_in_heap[OF hs b] e
  show "(if in_heap s (w64 (p + n)) \<and> w64 (p + n) \<noteq> 0 then get_alloc s (w64 (p + n))
          else Inr True) = Inr False" by simp
qed

lemma coalesce_unfold:
  assumes "get_next_block s b = Inr nb" and "get_prev_block s b = Inr pb"
    and "(if in_heap s pb \<and> pb \<noteq> 0
          then rbind (load s (find_prev_footer b)) (\<lambda>w. Inr (extract_alloc w))
          else Inr True) = Inr pa"
    and "(if in_heap s nb \<and> nb \<noteq> 0 then get_alloc s nb else Inr True) = Inr na"
    and "get_size s b = Inr sz"
  shows "coalesce b s =
     (if pa \<and> na then
         rbind (add_to_list b s) (\<lambda>s1. Inr (b, s1))
       else if pa \<and> \<not> na then
         rbind (remove_from_list nb s) (\<lambda>s1.
         rbind (get_size s1 nb) (\<lambda>nsz.
         rbind (write_block b (sz + nsz) False s1) (\<lambda>s2.
         rbind (add_to_list b s2) (\<lambda>s3. Inr (b, s3)))))
       else if \<not> pa \<and> na then
         rbind (remove_from_list pb s) (\<lambda>s1.
         rbind (get_size s1 pb) (\<lambda>psz.
         rbind (write_block pb (sz + psz) False s1) (\<lambda>s2.
         rbind (add_to_list pb s2) (\<lambda>s3. Inr (pb, s3)))))
       else
         rbind (remove_from_list pb s) (\<lambda>s1.
         rbind (remove_from_list nb s1) (\<lambda>s2.
         rbind (get_size s2 nb) (\<lambda>nsz.
         rbind (get_size s2 pb) (\<lambda>psz.
         rbind (write_block pb (sz + (nsz + psz)) False s2) (\<lambda>s3.
         rbind (add_to_list pb s3) (\<lambda>s4. Inr (pb, s4))))))))"
  unfolding coalesce_def using assms by simp

lemma chain_pos_notin:
  assumes "chain a (xs @ (p, n, al) # ys) e"
  shows "p \<notin> fst ` set xs" and "p \<notin> fst ` set ys" and "p \<notin> free_pos xs" and "p \<notin> free_pos ys"
proof -
  from chain_distinct[OF assms] show 1: "p \<notin> fst ` set xs" and 2: "p \<notin> fst ` set ys" by auto
  from 1 show "p \<notin> free_pos xs" by (force simp: free_pos_def)
  from 2 show "p \<notin> free_pos ys" by (force simp: free_pos_def)
qed

lemma heap_inv_struct: "heap_inv s bs fl \<Longrightarrow> heap_struct s bs fl"
  by (simp add: heap_inv_def)

lemma heap_struct_fl:
  assumes "heap_struct s bs fl"
  shows "distinct fl" and "set fl \<subseteq> free_pos bs"
  using heap_struct_root(7)[OF assms] by (simp_all add: heap_mem_def)


lemma coalesce_case1:
  assumes pe: "pending s xs p n ys fl"
    and pa: "xs = [] \<or> snd (snd (last xs))" and na: "ys = [] \<or> snd (snd (hd ys))"
  shows "\<exists>s'. coalesce (w64 p) s = Inr (w64 p, s') \<and>
              heap_inv s' (xs @ (p, n, False) # ys) (fl @ [p]) \<and> same_region s s'"
proof -
  let ?bs = "xs @ (p, n, False) # ys"
  from pe have hs: "heap_struct s ?bs fl" and nin: "p \<notin> set fl"
    and sub: "free_pos xs \<union> free_pos ys \<subseteq> set fl" and naf: "no_adj_free (xs @ (p, n, True) # ys)"
    by (simp_all add: pending_def)
  have b: "(p, n, False) \<in> set ?bs" by simp
  from coalesce_prev_alloc[OF hs pa] obtain pb where
    1: "get_prev_block s (w64 p) = Inr pb"
    and 2: "(if in_heap s pb \<and> pb \<noteq> 0
             then rbind (load s (find_prev_footer (w64 p))) (\<lambda>w. Inr (extract_alloc w))
             else Inr True) = Inr True" by blast
  note c = coalesce_unfold[OF header_read(4)[OF hs b] 1 2 coalesce_next_alloc[OF hs na]
      header_read(2)[OF hs b]]
  have "p \<in> free_pos ?bs" by simp
  from add_to_list_struct[OF hs this nin] obtain s' where
    a: "add_to_list (w64 p) s = Inr s'" and hs': "heap_struct s' ?bs (fl @ [p])"
    and sr: "same_region s s'" by blast
  have "no_adj_free ?bs"
    using naf pa na by (auto simp: no_adj_free_append no_adj_free_Cons)
  with hs' sub have "heap_inv s' ?bs (fl @ [p])" by (auto simp: heap_inv_def)
  with c a sr show ?thesis by simp
qed

lemma coalesce_case2:
  assumes pe: "pending s xs p n ((np, nn, False) # ys) fl"
    and pa: "xs = [] \<or> snd (snd (last xs))"
  shows "\<exists>s'. coalesce (w64 p) s = Inr (w64 p, s') \<and>
              heap_inv s' (xs @ (p, n + nn, False) # ys) (remove1 np fl @ [p]) \<and>
              same_region s s'"
proof -
  let ?bs = "xs @ (p, n, False) # (np, nn, False) # ys"
  let ?bs' = "xs @ (p, n + nn, False) # ys"
  from pe have hs: "heap_struct s ?bs fl" and nin: "p \<notin> set fl"
    and sub: "free_pos xs \<union> free_pos ((np, nn, False) # ys) \<subseteq> set fl"
    and naf: "no_adj_free (xs @ (p, n, True) # (np, nn, False) # ys)"
    by (simp_all add: pending_def)
  have b: "(p, n, False) \<in> set ?bs" and nb: "(np, nn, False) \<in> set ?bs" by simp_all
  note ch = heap_struct_chain[OF hs]
  from coalesce_next_free[OF hs] have e: "np = p + n"
    and 4: "(if in_heap s (w64 (p + n)) \<and> w64 (p + n) \<noteq> 0 then get_alloc s (w64 (p + n))
          else Inr True) = Inr False" by simp_all
  from coalesce_prev_alloc[OF hs pa] obtain pb where
    1: "get_prev_block s (w64 p) = Inr pb"
    and 2: "(if in_heap s pb \<and> pb \<noteq> 0
             then rbind (load s (find_prev_footer (w64 p))) (\<lambda>w. Inr (extract_alloc w))
             else Inr True) = Inr True" by blast
  note c = coalesce_unfold[OF header_read(4)[OF hs b] 1 2 4 header_read(2)[OF hs b]]
  from sub have npin: "np \<in> set fl" by simp
  from remove_from_list_struct1[OF hs npin] obtain s1 where
    r1: "remove_from_list (w64 np) s = Inr s1" and hs1: "heap_struct s1 ?bs (remove1 np fl)"
    and sr1: "same_region s s1" by blast
  note fl = heap_struct_fl[OF hs]
  have c': "chain (unat (mem_start s1) + 40) (xs @ [(p, n + nn, False)] @ ys) (unat (mem_brk s1))"
    using ch sr1 e by (auto simp: chain_split same_region_def add.assoc mod_add_zero)
  from chain_pos_notin[of _ "xs @ [(p, n, False)]" np nn False ys] ch
  have npx: "np \<notin> free_pos xs" "np \<notin> free_pos ys" by simp_all
  from chain_pos_notin[OF ch] have px: "p \<notin> free_pos xs" "p \<notin> free_pos ys" by simp_all
  have fl1: "set (remove1 np fl) \<subseteq> free_pos xs \<union> free_pos ys"
    using fl nin by auto
  have hs1': "heap_struct s1 (xs @ [(p, n, False), (np, nn, False)] @ ys) (remove1 np fl)"
    using hs1 by simp
  from write_block_struct[OF hs1' c' fl1] obtain s2 where
    w: "write_block (w64 p) (w64 (n + nn)) False s1 = Inr s2"
    and hs2: "heap_struct s2 ?bs' (remove1 np fl)" and sr2: "same_region s1 s2" by auto
  have "p \<in> free_pos ?bs'" by simp
  moreover have "p \<notin> set (remove1 np fl)" using nin by (auto dest: notin_set_remove1)
  ultimately obtain s3 where
    a: "add_to_list (w64 p) s2 = Inr s3" and hs3: "heap_struct s3 ?bs' (remove1 np fl @ [p])"
    and sr3: "same_region s2 s3" using add_to_list_struct[OF hs2] by blast
  have naf': "no_adj_free ?bs'"
    using naf pa by (auto simp: no_adj_free_append no_adj_free_Cons)
  have "free_pos ?bs' \<subseteq> set (remove1 np fl @ [p])"
    using sub npx fl(1) by auto
  with hs3 naf' have hi: "heap_inv s3 ?bs' (remove1 np fl @ [p])" by (simp add: heap_inv_def)
  have sr: "same_region s s3" using sr1 sr2 sr3 by (auto intro: same_region_trans)
  from c r1 header_read(2)[OF hs1 nb] w a hi sr e show ?thesis
    by (simp add: w64_add)
qed


lemma coalesce_case3:
  assumes pe: "pending s (xs @ [(pp, pn, False)]) p n ys fl"
    and na: "ys = [] \<or> snd (snd (hd ys))"
  shows "\<exists>s'. coalesce (w64 p) s = Inr (w64 pp, s') \<and>
              heap_inv s' (xs @ (pp, pn + n, False) # ys) (remove1 pp fl @ [pp]) \<and>
              same_region s s'"
proof -
  let ?bs = "xs @ (pp, pn, False) # (p, n, False) # ys"
  let ?bs' = "xs @ (pp, pn + n, False) # ys"
  from pe have hs: "heap_struct s ?bs fl" and nin: "p \<notin> set fl"
    and sub: "free_pos (xs @ [(pp, pn, False)]) \<union> free_pos ys \<subseteq> set fl"
    and naf: "no_adj_free (xs @ (pp, pn, False) # (p, n, True) # ys)"
    by (simp_all add: pending_def)
  have b: "(p, n, False) \<in> set ?bs" and pb: "(pp, pn, False) \<in> set ?bs" by simp_all
  note ch = heap_struct_chain[OF hs]
  from ch have e: "p = pp + pn" by (simp add: chain_split)
  have hsa: "heap_struct s ((xs @ [(pp, pn, False)]) @ (p, n, False) # ys) fl" using hs by simp
  note c = coalesce_unfold[OF header_read(4)[OF hs b] coalesce_prev_free[OF hs]
      coalesce_next_alloc[OF hsa na] header_read(2)[OF hs b]]
  from sub have ppin: "pp \<in> set fl" by simp
  from remove_from_list_struct1[OF hs ppin] obtain s1 where
    r1: "remove_from_list (w64 pp) s = Inr s1" and hs1: "heap_struct s1 ?bs (remove1 pp fl)"
    and sr1: "same_region s s1" by blast
  note fl = heap_struct_fl[OF hs]
  have c': "chain (unat (mem_start s1) + 40) (xs @ [(pp, pn + n, False)] @ ys) (unat (mem_brk s1))"
    using ch sr1 e by (auto simp: chain_split same_region_def add.assoc mod_add_zero)
  from chain_pos_notin[OF ch] have ppx: "pp \<notin> free_pos xs" "pp \<notin> free_pos ys" by simp_all
  have fl1: "set (remove1 pp fl) \<subseteq> free_pos xs \<union> free_pos ys"
    using fl nin by auto
  have hs1': "heap_struct s1 (xs @ [(pp, pn, False), (p, n, False)] @ ys) (remove1 pp fl)"
    using hs1 by simp
  from write_block_struct[OF hs1' c' fl1] obtain s2 where
    w: "write_block (w64 pp) (w64 (pn + n)) False s1 = Inr s2"
    and hs2: "heap_struct s2 ?bs' (remove1 pp fl)" and sr2: "same_region s1 s2" by auto
  have "pp \<in> free_pos ?bs'" by simp
  moreover have "pp \<notin> set (remove1 pp fl)" using fl(1) by simp
  ultimately obtain s3 where
    a: "add_to_list (w64 pp) s2 = Inr s3" and hs3: "heap_struct s3 ?bs' (remove1 pp fl @ [pp])"
    and sr3: "same_region s2 s3" using add_to_list_struct[OF hs2] by blast
  have naf': "no_adj_free ?bs'"
    using naf na by (auto simp: no_adj_free_append no_adj_free_Cons)
  have "free_pos ?bs' \<subseteq> set (remove1 pp fl @ [pp])"
    using sub fl(1) by auto
  with hs3 naf' have hi: "heap_inv s3 ?bs' (remove1 pp fl @ [pp])" by (simp add: heap_inv_def)
  have sr: "same_region s s3" using sr1 sr2 sr3 by (auto intro: same_region_trans)
  from c r1 header_read(2)[OF hs1 pb] w a hi sr show ?thesis
    by (simp add: w64_add add.commute)
qed

lemma coalesce_case4:
  assumes pe: "pending s (xs @ [(pp, pn, False)]) p n ((np, nn, False) # ys) fl"
  shows "\<exists>s'. coalesce (w64 p) s = Inr (w64 pp, s') \<and>
              heap_inv s' (xs @ (pp, pn + n + nn, False) # ys)
                (remove1 np (remove1 pp fl) @ [pp]) \<and>
              same_region s s'"
proof -
  let ?bs = "xs @ (pp, pn, False) # (p, n, False) # (np, nn, False) # ys"
  let ?bs' = "xs @ (pp, pn + n + nn, False) # ys"
  let ?fl2 = "remove1 np (remove1 pp fl)"
  from pe have hs: "heap_struct s ?bs fl" and nin: "p \<notin> set fl"
    and sub: "free_pos (xs @ [(pp, pn, False)]) \<union> free_pos ((np, nn, False) # ys) \<subseteq> set fl"
    and naf: "no_adj_free (xs @ (pp, pn, False) # (p, n, True) # (np, nn, False) # ys)"
    by (simp_all add: pending_def)
  have b: "(p, n, False) \<in> set ?bs" and pb: "(pp, pn, False) \<in> set ?bs"
    and nb: "(np, nn, False) \<in> set ?bs" by simp_all
  note ch = heap_struct_chain[OF hs]
  from ch have e: "p = pp + pn" "np = p + n" by (simp_all add: chain_split)
  have hsa: "heap_struct s ((xs @ [(pp, pn, False)]) @ (p, n, False) # (np, nn, False) # ys) fl"
    using hs by simp
  note c = coalesce_unfold[OF header_read(4)[OF hs b] coalesce_prev_free[OF hs]
      coalesce_next_free(2)[OF hsa] header_read(2)[OF hs b]]
  note fl = heap_struct_fl[OF hs]
  from sub have ppin: "pp \<in> set fl" and npin: "np \<in> set fl" by simp_all
  from chain_pos_notin[OF ch] have ppx: "pp \<notin> free_pos xs" "pp \<notin> free_pos ys" "pp \<noteq> np"
    by simp_all
  from chain_pos_notin[of _ "xs @ [(pp, pn, False), (p, n, False)]" np nn False ys] ch
  have npx: "np \<notin> free_pos xs" "np \<notin> free_pos ys" by simp_all
  from remove_from_list_struct1[OF hs ppin] obtain s1 where
    r1: "remove_from_list (w64 pp) s = Inr s1" and hs1: "heap_struct s1 ?bs (remove1 pp fl)"
    and sr1: "same_region s s1" by blast
  from npin ppx(3) have "np \<in> set (remove1 pp fl)" by simp
  from remove_from_list_struct1[OF hs1 this] obtain s2 where
    r2: "remove_from_list (w64 np) s1 = Inr s2" and hs2: "heap_struct s2 ?bs ?fl2"
    and sr2: "same_region s1 s2" by blast
  have sr12: "same_region s s2" using sr1 sr2 by (rule same_region_trans)
  have c': "chain (unat (mem_start s2) + 40) (xs @ [(pp, pn + n + nn, False)] @ ys) (unat (mem_brk s2))"
    using ch sr12 e by (auto simp: chain_split same_region_def add.assoc mod_add_zero)
  have fl2: "set ?fl2 \<subseteq> free_pos xs \<union> free_pos ys"
    using fl nin by auto
  have hs2': "heap_struct s2 (xs @ [(pp, pn, False), (p, n, False), (np, nn, False)] @ ys) ?fl2"
    using hs2 by simp
  from write_block_struct[OF hs2' c' fl2] obtain s3 where
    w: "write_block (w64 pp) (w64 (pn + n + nn)) False s2 = Inr s3"
    and hs3: "heap_struct s3 ?bs' ?fl2" and sr3: "same_region s2 s3" by auto
  have "pp \<in> free_pos ?bs'" by simp
  moreover have "pp \<notin> set ?fl2" using fl(1) by (auto dest: notin_set_remove1)
  ultimately obtain s4 where
    a: "add_to_list (w64 pp) s3 = Inr s4" and hs4: "heap_struct s4 ?bs' (?fl2 @ [pp])"
    and sr4: "same_region s3 s4" using add_to_list_struct[OF hs3] by blast
  have naf': "no_adj_free ?bs'"
    using naf by (auto simp: no_adj_free_append no_adj_free_Cons)
  have "free_pos ?bs' \<subseteq> set (?fl2 @ [pp])"
    using sub fl(1) npx ppx by auto
  with hs4 naf' have hi: "heap_inv s4 ?bs' (?fl2 @ [pp])" by (simp add: heap_inv_def)
  have sr: "same_region s s4" using sr12 sr3 sr4 by (auto intro: same_region_trans)
  have "w64 n + (w64 nn + w64 pn) = w64 (pn + n + nn)" by (simp add: w64_add add.commute add.left_commute)
  moreover have "remove_from_list (w64 (p + n)) s1 = Inr s2" using r2 e(2) by simp
  moreover have "get_size s2 (w64 (p + n)) = Inr (w64 nn)"
    using header_read(2)[OF hs2 nb] e(2) by simp
  ultimately show ?thesis
    using c r1 header_read(2)[OF hs2 pb] w a hi sr by simp
qed


lemma coalesce_inv:
  assumes pe: "pending s xs p n ys fl"
  shows "\<exists>q s' bs' fl'. coalesce (w64 p) s = Inr (w64 q, s') \<and> heap_inv s' bs' fl' \<and>
           same_region s s' \<and> alloc_pos bs' = alloc_pos (xs @ ys)"
proof -
  consider (c1) "xs = [] \<or> snd (snd (last xs))" "ys = [] \<or> snd (snd (hd ys))"
    | (c2) np nn ys' where "xs = [] \<or> snd (snd (last xs))" "ys = (np, nn, False) # ys'"
    | (c3) xs' pp pn where "xs = xs' @ [(pp, pn, False)]" "ys = [] \<or> snd (snd (hd ys))"
    | (c4) xs' pp pn np nn ys' where "xs = xs' @ [(pp, pn, False)]" "ys = (np, nn, False) # ys'"
  proof -
    have x: "(xs = [] \<or> snd (snd (last xs))) \<or> (\<exists>xs' pp pn. xs = xs' @ [(pp, pn, False)])"
      by (cases xs rule: rev_cases) auto
    have y: "(ys = [] \<or> snd (snd (hd ys))) \<or> (\<exists>np nn ys'. ys = (np, nn, False) # ys')"
      by (cases ys) auto
    from x y that show ?thesis by blast
  qed
  then show ?thesis
  proof cases
    case c1
    from coalesce_case1[OF pe c1] obtain s' where
      "coalesce (w64 p) s = Inr (w64 p, s')" "heap_inv s' (xs @ (p, n, False) # ys) (fl @ [p])"
      "same_region s s'" by blast
    moreover have "alloc_pos (xs @ (p, n, False) # ys) = alloc_pos (xs @ ys)" by simp
    ultimately show ?thesis by blast
  next
    case c2
    from coalesce_case2[of s xs p n np nn ys' fl] pe c2 obtain s' where
      "coalesce (w64 p) s = Inr (w64 p, s')"
      "heap_inv s' (xs @ (p, n + nn, False) # ys') (remove1 np fl @ [p])"
      "same_region s s'" by blast
    moreover have "alloc_pos (xs @ (p, n + nn, False) # ys') = alloc_pos (xs @ ys)"
      using c2 by simp
    ultimately show ?thesis by blast
  next
    case c3
    from coalesce_case3[of s xs' pp pn p n ys fl] pe c3 obtain s' where
      "coalesce (w64 p) s = Inr (w64 pp, s')"
      "heap_inv s' (xs' @ (pp, pn + n, False) # ys) (remove1 pp fl @ [pp])"
      "same_region s s'" by blast
    moreover have "alloc_pos (xs' @ (pp, pn + n, False) # ys) = alloc_pos (xs @ ys)"
      using c3 by simp
    ultimately show ?thesis by blast
  next
    case c4
    from coalesce_case4[of s xs' pp pn p n np nn ys' fl] pe c4 obtain s' where
      "coalesce (w64 p) s = Inr (w64 pp, s')"
      "heap_inv s' (xs' @ (pp, pn + n + nn, False) # ys') (remove1 np (remove1 pp fl) @ [pp])"
      "same_region s s'" by blast
    moreover have "alloc_pos (xs' @ (pp, pn + n + nn, False) # ys') = alloc_pos (xs @ ys)"
      using c4 by simp
    ultimately show ?thesis by blast
  qed
qed

lemma chain_alloc_notin:
  assumes "chain a (xs @ (p, n, al) # ys) e"
  shows "p \<notin> alloc_pos xs" and "p \<notin> alloc_pos ys"
proof -
  from chain_pos_notin(1)[OF assms] show "p \<notin> alloc_pos xs" by (force simp: alloc_pos_def)
  from chain_pos_notin(2)[OF assms] show "p \<notin> alloc_pos ys" by (force simp: alloc_pos_def)
qed

lemma no_adj_free_flip:
  "no_adj_free (xs @ (p, n, al) # ys) \<Longrightarrow> no_adj_free (xs @ (p, n, True) # ys)"
  by (auto simp: no_adj_free_append no_adj_free_Cons)

lemma free_inv:
  assumes hi: "heap_inv s bs fl" and b: "(p, n, True) \<in> set bs"
  shows "\<exists>s' bs' fl'. free (w64 (p + 8)) s = Inr s' \<and> heap_inv s' bs' fl' \<and>
           same_region s s' \<and> alloc_pos bs' = alloc_pos bs - {p}"
proof -
  from b obtain xs ys where bs: "bs = xs @ (p, n, True) # ys" by (auto dest: split_list)
  from hi have hs: "heap_struct s (xs @ [(p, n, True)] @ ys) fl" and sub: "free_pos bs \<subseteq> set fl"
    and naf: "no_adj_free bs"
    by (simp_all add: heap_inv_def bs)
  have hs0: "heap_struct s bs fl" using hs bs by simp
  note ch = heap_struct_chain[OF hs0]
  from ch have c': "chain (unat (mem_start s) + 40) (xs @ [(p, n, False)] @ ys) (unat (mem_brk s))"
    by (simp add: bs chain_split)
  from heap_struct_fl(2)[OF hs0] have fl: "set fl \<subseteq> free_pos xs \<union> free_pos ys"
    by (simp add: bs)
  from write_block_struct[OF hs c' fl] obtain s1 where
    w: "write_block (w64 p) (w64 n) False s = Inr s1"
    and hs1: "heap_struct s1 (xs @ (p, n, False) # ys) fl" and sr1: "same_region s s1" by auto
  from chain_pos_notin[of _ xs p n True ys] ch bs have "p \<notin> free_pos xs" "p \<notin> free_pos ys"
    by simp_all
  with fl have "p \<notin> set fl" by auto
  with hs1 sub naf have "pending s1 xs p n ys fl" by (simp add: pending_def bs)
  from coalesce_inv[OF this] obtain q s' bs' fl' where
    c: "coalesce (w64 p) s1 = Inr (w64 q, s')" and hi': "heap_inv s' bs' fl'"
    and sr2: "same_region s1 s'" and ap: "alloc_pos bs' = alloc_pos (xs @ ys)" by blast
  from chain_alloc_notin[of _ xs p n True ys] ch bs
  have "alloc_pos (xs @ ys) = alloc_pos bs - {p}" by (auto simp: bs)
  with ap have ap': "alloc_pos bs' = alloc_pos bs - {p}" by simp
  have "payload_to_header (w64 (p + 8)) = w64 p"
    by (simp add: payload_to_header_def w64_sub_num)
  with header_read(2)[OF hs0 b] w c have "free (w64 (p + 8)) s = Inr s'"
    by (simp add: free_def)
  with hi' ap' same_region_trans[OF sr1 sr2] show ?thesis by blast
qed

section \<open>Searching the free list\<close>

lemma find_fit_loop_list:
  assumes "lchain (nxt (mem s)) a fl r"
    and "\<And>q. q \<in> set fl \<Longrightarrow>
           valid s (w64 q) \<and> valid s (w64 (q + 16)) \<and> extract_size (mem s (w64 q)) \<noteq> 0"
    and "valid s (w64 r)" and "extract_size (mem s (w64 r)) = 0"
  shows "find_fit_loop s asize (w64 (hd (fl @ [r]))) =
         Some (Inr (case find (\<lambda>q. asize \<le> extract_size (mem s (w64 q))) fl of
                      None \<Rightarrow> 0 | Some q \<Rightarrow> w64 q))"
  using assms(1,2)
proof (induction fl arbitrary: a)
  case Nil
  from assms(3,4) show ?case
    by (subst find_fit_loop.simps) (simp add: get_size_def load_ok)
next
  case (Cons x xs)
  from Cons.prems(1) have l: "lchain (nxt (mem s)) x xs r" by simp
  from Cons.prems(2)[of x] have v: "valid s (w64 x)" "valid s (w64 (x + 16))"
    and nz: "extract_size (mem s (w64 x)) \<noteq> 0" by simp_all
  from nz have pos: "0 < extract_size (mem s (w64 x))" by (simp add: word_gt_0)
  have ih: "find_fit_loop s asize (w64 (hd (xs @ [r]))) =
         Some (Inr (case find (\<lambda>q. asize \<le> extract_size (mem s (w64 q))) xs of
                      None \<Rightarrow> 0 | Some q \<Rightarrow> w64 q))"
    by (rule Cons.IH[OF l]) (use Cons.prems(2) in simp)
  have nx: "get_next_free s (w64 x) = Inr (w64 (hd (xs @ [r])))"
    using lchain_hd[OF l] v(2)
    by (simp add: get_next_free_def next_field_def w64_add_num load_ok nxt_def)
  show ?case
    by (subst find_fit_loop.simps) (simp add: get_size_def load_ok v pos nx ih)
qed

lemma find_fit_struct:
  assumes hs: "heap_struct s bs fl"
  shows "find_fit s asize =
         Some (Inr (case find (\<lambda>q. asize \<le> extract_size (mem s (w64 q))) fl of
                      None \<Rightarrow> 0 | Some q \<Rightarrow> w64 q))"
proof -
  let ?r = "unat (mem_start s) + 8"
  note r = heap_struct_root[OF hs]
  from r(7) have d: "dll (mem s) ?r fl" and rt: "mem s (w64 ?r) = pack 0 True"
    by (simp_all add: heap_mem_def heap_tags_def)
  from d have l: "lchain (nxt (mem s)) ?r fl ?r" by (simp add: dll_def)
  have nodes: "valid s (w64 q) \<and> valid s (w64 (q + 16)) \<and> extract_size (mem s (w64 q)) \<noteq> 0"
    if "q \<in> set fl" for q
  proof -
    from that heap_struct_fl(2)[OF hs] obtain n where b: "(q, n, False) \<in> set bs"
      by (auto dest: free_posD)
    note g = heap_struct_block[OF hs b]
    from g have nb: "n < 2 ^ 64" "n \<noteq> 0" by simp_all
    from heap_struct_valid_block[OF hs b, of 0] heap_struct_valid_block[OF hs b, of 16] g(3)
    have "valid s (w64 q)" "valid s (w64 (q + 16))" by simp_all
    moreover from g(7) g(4) nb have "extract_size (mem s (w64 q)) \<noteq> 0"
      by (simp add: extract_size_w64 w64_eq_0)
    ultimately show ?thesis by simp
  qed
  have vr: "valid s (w64 ?r)" using heap_struct_valid_root[OF hs, of 8] by simp
  have zr: "extract_size (mem s (w64 ?r)) = 0" using rt by simp
  have "get_next_free s (free_root s) = Inr (w64 (hd (fl @ [?r])))"
    using lchain_hd[OF l] heap_struct_valid_root[OF hs, of 24] r(1)
    by (simp add: get_next_free_def next_field_def w64_add_num load_ok nxt_def add.assoc)
  with find_fit_loop_list[OF l nodes vr zr, of asize] show ?thesis
    by (simp add: find_fit_def)
qed

section \<open>Placing a request in a free block\<close>

lemma place_split:
  assumes hs: "heap_struct s (xs @ (p, n, False) # ys) fl"
    and sub: "free_pos (xs @ (p, n, False) # ys) \<subseteq> set fl"
    and naf: "no_adj_free (xs @ (p, n, True) # ys)"
    and nx: "ys = [] \<or> snd (snd (hd ys))"
    and a: "a mod 16 = 0" "32 \<le> a" "a + 32 \<le> n"
  shows "\<exists>s'. place (w64 p) (w64 a) s = Inr s' \<and>
           heap_inv s' (xs @ (p, a, True) # (p + a, n - a, False) # ys) (remove1 p fl @ [p + a]) \<and>
           same_region s s'"
proof -
  let ?bs = "xs @ (p, n, False) # ys"
  let ?mid = "[(p, a, True), (p + a, n - a, False)]"
  let ?fl1 = "remove1 p fl"
  have b: "(p, n, False) \<in> set ?bs" by simp
  note g = heap_struct_block[OF hs b]
  note ch = heap_struct_chain[OF hs]
  note fl = heap_struct_fl[OF hs]
  from g a have nb: "n < 2 ^ 64" "a < 2 ^ 64" "n - a < 2 ^ 64" "p < 2 ^ 64" "p + a < 2 ^ 64"
    by simp_all
  have cond: "min_block_size \<le> w64 n - w64 a"
  proof -
    from a have 1: "w64 n - w64 a = w64 (n - a)" by (simp add: w64_sub)
    have 2: "min_block_size = w64 32"
      by (simp add: min_block_size_def dsize_def wsize_def w64_numeral)
    have "w64 32 \<le> w64 (n - a)" using a nb by (simp add: w64_le)
    then show ?thesis unfolding 1 2 .
  qed
  from sub have pin: "p \<in> set fl" by simp
  from remove_from_list_struct1[OF hs pin] obtain s1 where
    r1: "remove_from_list (w64 p) s = Inr s1" and hs1: "heap_struct s1 ?bs ?fl1"
    and sr1: "same_region s s1" by blast
  let ?L = "unat (mem_start s1)" and ?B = "unat (mem_brk s1)"
  note r = heap_struct_root[OF hs1]
  note g1 = heap_struct_block[OF hs1 b]
  have B: "?B < 2 ^ 64" by (rule unat_bound)
  \<comment> \<open>the two blocks are written\<close>
  let ?m2 = "(mem s1)(w64 p := pack (w64 a) True, w64 (p + a - 8) := pack (w64 a) True)"
  let ?s2 = "s1\<lparr>mem := ?m2\<rparr>"
  let ?m3 = "?m2(w64 (p + a) := pack (w64 (n - a)) False,
                  w64 (p + a + (n - a) - 8) := pack (w64 (n - a)) False)"
  let ?s3 = "s1\<lparr>mem := ?m3\<rparr>"
  have am: "a mod 8 = 0" "(a - 8) mod 8 = 0" "(n - 8) mod 8 = 0"
    using mod16_0_8[OF a(1)] mod16_0_8[OF g(4)] by (simp_all add: mod8_sub)
  have v: "valid s1 (w64 p)" "valid s1 (w64 (p + a - 8))" "valid s1 (w64 (p + a))"
    "valid s1 (w64 (p + a + (n - a) - 8))"
    using heap_struct_valid_block[OF hs1 b, of 0] heap_struct_valid_block[OF hs1 b, of "a - 8"]
      heap_struct_valid_block[OF hs1 b, of a] heap_struct_valid_block[OF hs1 b, of "n - 8"]
      am a by simp_all
  from g1 have "p \<noteq> ?L + 8" by simp
  with r(1) nb g1 have nr: "w64 p \<noteq> free_root s1" by (simp add: w64_inj)
  from g1 a have "p + a \<noteq> ?L + 8" by simp
  with r(1) nb g1 have nr': "w64 (p + a) \<noteq> free_root ?s2" by (simp add: w64_inj)
  have w1: "write_block (w64 p) (w64 a) True s1 = Inr ?s2"
    by (rule write_block_ok[OF v(1,2) a(1) _ nb(2) nr]) (use a in simp)
  have na16: "(n - a) mod 16 = 0" using a(1,3) g(4)
    by (metis mod_add_zero add.commute le_add_diff_inverse2 mod_0 add_leD1 le_add2 le_trans)
  have "write_block (w64 (p + a)) (w64 (n - a)) False ?s2 =
          Inr (?s2\<lparr>mem := (mem ?s2)(w64 (p + a) := pack (w64 (n - a)) False,
                  w64 (p + a + (n - a) - 8) := pack (w64 (n - a)) False)\<rparr>)"
    by (rule write_block_ok[OF _ _ na16 _ nb(3) nr']) (use v a in simp_all)
  then have w2: "write_block (w64 (p + a)) (w64 (n - a)) False ?s2 = Inr ?s3"
    by (simp del: fun_upd_apply)
  have h2: "?m2 (w64 p) = pack (w64 a) True" by simp
  have gnb: "get_next_block ?s2 (w64 p) = Inr (w64 (p + a))"
    using v(1) h2 a(1) nb(2)
    by (simp add: get_next_block_def get_size_def load_ok extract_size_w64 w64_add)
  have nz: "w64 (p + a) \<noteq> 0" using nb g1 by (simp add: w64_eq_0)
  \<comment> \<open>the structure after the two writes\<close>
  have c': "chain (?L + 40) (xs @ ?mid @ ys) ?B"
    using heap_struct_chain[OF hs1] a na16 by (auto simp: chain_split add.assoc)
  from chain_pos_notin[OF ch] have px: "p \<notin> free_pos xs" "p \<notin> free_pos ys" by simp_all
  have fl1: "set ?fl1 \<subseteq> free_pos xs \<union> free_pos ys" using fl by auto
  have neq: "p \<noteq> p + a" "p \<noteq> p + a + (n - a) - 8" "p + a - 8 \<noteq> p + a"
    "p + a - 8 \<noteq> p + a + (n - a) - 8" "p + a \<noteq> p + a + (n - a) - 8"
    using a by simp_all
  have bb: "p + a - 8 < 2 ^ 64" "p + a + (n - a) - 8 < 2 ^ 64" using g a by simp_all
  have tg: "tags_ok ?m3 ?mid"
    using neq nb bb by (simp add: w64_inj)
  have fr: "?m3 (w64 c) = mem s1 (w64 c)"
    if "c < 2 ^ 64" "\<forall>(q, k, bl) \<in> set ?mid. c < q \<or> q + k \<le> c" for c
  proof -
    from that(2) a have "c < p \<or> p + n \<le> c" by auto
    with a have "c \<noteq> p" "c \<noteq> p + a - 8" "c \<noteq> p + a" "c \<noteq> p + a + (n - a) - 8" by auto
    with that(1) nb bb show ?thesis by (simp add: w64_inj)
  qed
  have hs1': "heap_mem (mem s1) ?L ?B (xs @ [(p, n, False)] @ ys) ?fl1" using r(7) by simp
  have hm3: "heap_mem ?m3 ?L ?B (xs @ ?mid @ ys) ?fl1"
    by (rule heap_mem_replace[OF hs1' c' B fl1 tg fr])
  from hs1 have pf: "prologue s1 = mem_start s1" "free_root s1 = mem_start s1 + 8"
    by (simp_all add: heap_struct_def)
  have hs3: "heap_struct ?s3 (xs @ ?mid @ ys) ?fl1"
    using hm3 pf by (simp add: heap_struct_def del: fun_upd_apply)
  have "p + a \<in> free_pos (xs @ ?mid @ ys)" by simp
  moreover have "p + a \<notin> set ?fl1"
  proof
    assume "p + a \<in> set ?fl1"
    with fl1 obtain k where "(p + a, k, False) \<in> set xs \<union> set ys" by (auto dest: free_posD)
    then have m: "(p + a, k, False) \<in> set ?bs" by auto
    from chain_sep[OF ch b m] chain_mem[OF ch m] a show False by auto
  qed
  ultimately obtain s4 where
    ad: "add_to_list (w64 (p + a)) ?s3 = Inr s4"
    and hs4: "heap_struct s4 (xs @ ?mid @ ys) (?fl1 @ [p + a])"
    and sr4: "same_region ?s3 s4" using add_to_list_struct[OF hs3] by blast
  have naf': "no_adj_free (xs @ ?mid @ ys)"
    using naf nx by (auto simp: no_adj_free_append no_adj_free_Cons)
  have "free_pos (xs @ ?mid @ ys) \<subseteq> set (?fl1 @ [p + a])"
    using sub px fl(1) by auto
  with hs4 naf' have hi: "heap_inv s4 (xs @ (p, a, True) # (p + a, n - a, False) # ys) (?fl1 @ [p + a])"
    by (simp add: heap_inv_def)
  have sr: "same_region s s4" using sr1 sr4 by (simp add: same_region_def)
  have "place (w64 p) (w64 a) s = Inr s4"
    using header_read(2)[OF hs b] cond r1 w1 gnb nz w2 ad a
    by (simp add: place_def w64_sub del: fun_upd_apply)
  with hi sr show ?thesis by blast
qed


lemma place_whole:
  assumes hs: "heap_struct s (xs @ (p, n, False) # ys) fl"
    and sub: "free_pos (xs @ (p, n, False) # ys) \<subseteq> set fl"
    and naf: "no_adj_free (xs @ (p, n, True) # ys)"
    and a: "a \<le> n" "n < a + 32"
  shows "\<exists>s'. place (w64 p) (w64 a) s = Inr s' \<and>
           heap_inv s' (xs @ (p, n, True) # ys) (remove1 p fl) \<and> same_region s s'"
proof -
  let ?bs = "xs @ (p, n, False) # ys"
  let ?fl1 = "remove1 p fl"
  have b: "(p, n, False) \<in> set ?bs" by simp
  note g = heap_struct_block[OF hs b]
  note ch = heap_struct_chain[OF hs]
  note fl = heap_struct_fl[OF hs]
  from g a have nb: "n < 2 ^ 64" "a < 2 ^ 64" "n - a < 2 ^ 64" by simp_all
  have cond: "\<not> min_block_size \<le> w64 n - w64 a"
  proof -
    from a have 1: "w64 n - w64 a = w64 (n - a)" by (simp add: w64_sub)
    have 2: "min_block_size = w64 32"
      by (simp add: min_block_size_def dsize_def wsize_def w64_numeral)
    have "\<not> w64 32 \<le> w64 (n - a)" using a nb by (simp add: w64_le)
    then show ?thesis unfolding 1 2 .
  qed
  from sub have pin: "p \<in> set fl" by simp
  from remove_from_list_struct1[OF hs pin] obtain s1 where
    r1: "remove_from_list (w64 p) s = Inr s1" and hs1: "heap_struct s1 ?bs ?fl1"
    and sr1: "same_region s s1" by blast
  have c': "chain (unat (mem_start s1) + 40) (xs @ [(p, n, True)] @ ys) (unat (mem_brk s1))"
    using heap_struct_chain[OF hs1] by (simp add: chain_split)
  from chain_pos_notin[OF ch] have px: "p \<notin> free_pos xs" "p \<notin> free_pos ys" by simp_all
  have fl1: "set ?fl1 \<subseteq> free_pos xs \<union> free_pos ys" using fl by auto
  have hs1': "heap_struct s1 (xs @ [(p, n, False)] @ ys) ?fl1" using hs1 by simp
  from write_block_struct[OF hs1' c' fl1] obtain s2 where
    w: "write_block (w64 p) (w64 n) True s1 = Inr s2"
    and hs2: "heap_struct s2 (xs @ (p, n, True) # ys) ?fl1" and sr2: "same_region s1 s2" by auto
  have "free_pos (xs @ (p, n, True) # ys) \<subseteq> set ?fl1"
    using sub px fl(1) by auto
  with hs2 naf have hi: "heap_inv s2 (xs @ (p, n, True) # ys) ?fl1" by (simp add: heap_inv_def)
  have "place (w64 p) (w64 a) s = Inr s2"
    using header_read(2)[OF hs b] cond r1 w by (simp add: place_def)
  with hi same_region_trans[OF sr1 sr2] show ?thesis by blast
qed

lemma place_inv:
  assumes hs: "heap_struct s (xs @ (p, n, False) # ys) fl"
    and sub: "free_pos (xs @ (p, n, False) # ys) \<subseteq> set fl"
    and naf: "no_adj_free (xs @ (p, n, True) # ys)"
    and nx: "ys = [] \<or> snd (snd (hd ys))"
    and a: "a mod 16 = 0" "32 \<le> a" "a \<le> n"
  shows "\<exists>s' bs' fl'. place (w64 p) (w64 a) s = Inr s' \<and> heap_inv s' bs' fl' \<and>
           same_region s s' \<and> alloc_pos bs' = insert p (alloc_pos (xs @ ys)) \<and>
           (\<exists>k. (p, k, True) \<in> set bs' \<and> a \<le> k)"
proof (cases "a + 32 \<le> n")
  case True
  from place_split[OF hs sub naf nx a(1,2) True] obtain s' where
    "place (w64 p) (w64 a) s = Inr s'"
    "heap_inv s' (xs @ (p, a, True) # (p + a, n - a, False) # ys) (remove1 p fl @ [p + a])"
    "same_region s s'" by blast
  moreover have "alloc_pos (xs @ (p, a, True) # (p + a, n - a, False) # ys) =
                 insert p (alloc_pos (xs @ ys))" by simp
  moreover have "(p, a, True) \<in> set (xs @ (p, a, True) # (p + a, n - a, False) # ys)" by simp
  ultimately show ?thesis by blast
next
  case False
  then have "n < a + 32" by simp
  from place_whole[OF hs sub naf a(3) this] obtain s' where
    "place (w64 p) (w64 a) s = Inr s'"
    "heap_inv s' (xs @ (p, n, True) # ys) (remove1 p fl)" "same_region s s'" by blast
  moreover have "alloc_pos (xs @ (p, n, True) # ys) = insert p (alloc_pos (xs @ ys))" by simp
  moreover have "(p, n, True) \<in> set (xs @ (p, n, True) # ys)" by simp
  ultimately show ?thesis using a(3) by blast
qed

section \<open>Extending the heap\<close>

lemma extend_heap_fail:
  assumes "\<not> unat (mem_brk s) + unat (round_up sz dsize) \<le> unat (mem_max_addr s)"
  shows "extend_heap sz s = Inr (0, s)"
  using assms by (simp add: extend_heap_def mem_sbrk_def)

lemma extend_heap_struct:
  assumes hs: "heap_struct s bs fl" and e: "32 \<le> unat (round_up sz dsize)"
    and ok: "unat (mem_brk s) + unat (round_up sz dsize) \<le> unat (mem_max_addr s)"
  shows "\<exists>s'. extend_heap sz s = Inr (mem_brk s, s') \<and>
           heap_struct s' (bs @ [(unat (mem_brk s), unat (round_up sz dsize), False)])
             (fl @ [unat (mem_brk s)]) \<and>
           mem_start s' = mem_start s \<and> mem_brk s' = mem_brk s + round_up sz dsize \<and>
           mem_max_addr s' = mem_max_addr s"
proof -
  let ?L = "unat (mem_start s)" and ?B = "unat (mem_brk s)" and ?e = "unat (round_up sz dsize)"
  let ?s1 = "s\<lparr>mem_brk := mem_brk s + round_up sz dsize\<rparr>"
  let ?m2 = "(mem s)(w64 ?B := pack (w64 ?e) False, w64 (?B + ?e - 8) := pack (w64 ?e) False)"
  let ?s2 = "?s1\<lparr>mem := ?m2\<rparr>"
  note r = heap_struct_root[OF hs]
  have mx: "unat (mem_max_addr s) < 2 ^ 64" by (rule unat_bound)
  with ok have B': "?B + ?e < 2 ^ 64" by simp
  have e16: "?e mod 16 = 0" using round_up_aligned[of sz] by (simp add: and15_iff)
  have brk1: "unat (mem_brk ?s1) = ?B + ?e"
    using B' by (simp add: unat_word_ariths)
  have st1: "unat (mem_start ?s1) = ?L" by simp
  have b8: "?B mod 8 = 0" using r(6) by (rule mod16_8)
  have v1: "valid ?s1 (w64 ?B)"
    by (rule valid_cell) (use b8 r(4) e brk1 in simp_all)
  have "(?B + ?e - 8) mod 8 = 0" by (rule footer_mod8[OF r(6) e16]) (use e in simp)
  then have v2: "valid ?s1 (w64 (?B + ?e - 8))"
    by (rule valid_cell) (use r(4) e brk1 in simp_all)
  have eb: "?e < 2 ^ 64" by (rule unat_bound)
  from r(4) B' have "w64 ?B \<noteq> w64 (?L + 8)" by (simp add: w64_inj)
  with r(1) have nr: "w64 ?B \<noteq> free_root ?s1" by simp
  have "write_block (w64 ?B) (w64 ?e) False ?s1 =
          Inr (?s1\<lparr>mem := (mem ?s1)(w64 ?B := pack (w64 ?e) False,
                  w64 (?B + ?e - 8) := pack (w64 ?e) False)\<rparr>)"
    by (rule write_block_ok[OF v1 v2 e16 _ eb nr]) (use e in simp)
  then have w: "write_block (mem_brk s) (round_up sz dsize) False ?s1 = Inr ?s2"
    by (simp add: w64_unat del: fun_upd_apply)
  have c': "chain (?L + 40) (bs @ [(?B, ?e, False)] @ []) (?B + ?e)"
    using heap_struct_chain[OF hs] e e16 by (simp add: chain_snoc)
  have tg: "tags_ok ?m2 [(?B, ?e, False)]" by simp
  have fr: "?m2 (w64 c) = mem s (w64 c)"
    if "c < 2 ^ 64" "\<forall>(q, k, bl) \<in> set [(?B, ?e, False)]. c < q \<or> q + k \<le> c" for c
  proof -
    from that(2) have "c < ?B \<or> ?B + ?e \<le> c" by simp
    with e have "c \<noteq> ?B" "c \<noteq> ?B + ?e - 8" by auto
    moreover from B' have "?B < 2 ^ 64" "?B + ?e - 8 < 2 ^ 64" by simp_all
    ultimately show ?thesis using that(1) by (simp add: w64_inj)
  qed
  have hm: "heap_mem (mem s) ?L ?B (bs @ [] @ []) fl" using r(7) by simp
  have fl: "set fl \<subseteq> free_pos bs \<union> free_pos []" using heap_struct_fl(2)[OF hs] by simp
  have hm2: "heap_mem ?m2 ?L (?B + ?e) (bs @ [(?B, ?e, False)] @ []) fl"
    by (rule heap_mem_replace[OF hm c' B' fl tg fr])
  from hs have pf: "prologue s = mem_start s" "free_root s = mem_start s + 8"
    by (simp_all add: heap_struct_def)
  have hs2: "heap_struct ?s2 (bs @ [(?B, ?e, False)]) fl"
    using hm2 pf brk1 by (simp add: heap_struct_def del: fun_upd_apply)
  have "?B \<in> free_pos (bs @ [(?B, ?e, False)])" by simp
  moreover have "?B \<notin> set fl"
  proof
    assume "?B \<in> set fl"
    with heap_struct_fl(2)[OF hs] obtain k where m: "(?B, k, False) \<in> set bs"
      by (auto dest: free_posD)
    from heap_struct_block(2,3)[OF hs m] show False by simp
  qed
  ultimately obtain s3 where
    ad: "add_to_list (w64 ?B) ?s2 = Inr s3"
    and hs3: "heap_struct s3 (bs @ [(?B, ?e, False)]) (fl @ [?B])"
    and sr3: "same_region ?s2 s3" using add_to_list_struct[OF hs2] by blast
  from B' e have "?B \<noteq> unat (- 1 :: 64 word)"
    by (simp add: unsigned_minus_1_eq_mask mask_eq_exp_minus_1)
  then have n1: "mem_brk s \<noteq> - 1" by auto
  have "extend_heap sz s = Inr (mem_brk s, s3)"
    using ok n1 w ad by (simp add: extend_heap_def mem_sbrk_def Let_def w64_unat del: fun_upd_apply)
  with hs3 sr3 show ?thesis by (auto simp: same_region_def)
qed


section \<open>Initialisation\<close>

lemma mm_init_fail:
  assumes "\<not> unat (mem_brk s) + 40 \<le> unat (mem_max_addr s)"
  shows "mm_init s = Inr (False, s)"
  using assms by (simp add: mm_init_def mem_sbrk_def wsize_def)

lemma valid_upd2 [simp]:
  "valid (s\<lparr>prologue := a\<rparr>) c = valid s c"
  "valid (s\<lparr>free_root := b\<rparr>) c = valid s c"
  by (simp_all add: valid_def)

lemma mm_init_root:
  assumes f: "fresh s" and ok: "unat (mem_brk s) + 40 \<le> unat (mem_max_addr s)"
  shows "\<exists>s7. heap_struct s7 [] [] \<and> mem_start s7 = mem_start s \<and>
           mem_max_addr s7 = mem_max_addr s \<and> mem_brk s7 = mem_start s + 40 \<and>
           mm_init s = rbind (extend_heap chunksize s7)
             (\<lambda>(b, s8). if b = 0 then Inr (False, s8) else Inr (True, s8))"
proof -
  let ?L = "unat (mem_start s)"
  from f have fr: "free_root s = 0" and br: "mem_brk s = mem_start s"
    and al: "?L mod 16 = 0"
    by (simp_all add: fresh_def and15_iff)
  have mx: "unat (mem_max_addr s) < 2 ^ 64" by (rule unat_bound)
  with ok br have Lb: "?L + 40 < 2 ^ 64" by simp
  let ?s1 = "s\<lparr>mem_brk := mem_brk s + 40\<rparr>"
  let ?m = "(mem s)(w64 ?L := pack 0 True, w64 (?L + 8) := pack 0 True,
              w64 (?L + 32) := pack 0 True, w64 (?L + 16) := w64 (?L + 8),
              w64 (?L + 24) := w64 (?L + 8))"
  let ?s7 = "s\<lparr>mem_brk := mem_brk s + 40, prologue := mem_start s,
               free_root := mem_start s + 8, mem := ?m\<rparr>"
  have st: "mem_start s = w64 ?L" by (simp add: w64_unat)
  have brk1: "unat (mem_brk ?s1) = ?L + 40"
    using Lb br by (simp add: unat_word_ariths)
  have l8: "?L mod 8 = 0" using al by (rule mod16_0_8)
  have v: "valid ?s1 (w64 (?L + k))" if "k mod 8 = 0" "k \<le> 32" for k
  proof (rule valid_cell)
    from l8 that(1) show "(?L + k) mod 8 = 0" by (simp add: mod_add_zero)
    show "unat (mem_start ?s1) \<le> ?L + k" by simp
    from that(2) brk1 show "?L + k + 8 \<le> unat (mem_brk ?s1)" by simp
  qed
  from v[of 0] v[of 8] v[of 16] v[of 24] v[of 32]
  have vs: "valid ?s1 (w64 ?L)" "valid ?s1 (w64 (?L + 8))" "valid ?s1 (w64 (?L + 16))"
    "valid ?s1 (w64 (?L + 24))" "valid ?s1 (w64 (?L + 32))" by simp_all
  from Lb ok br have "?L \<noteq> unat (- 1 :: 64 word)"
    by (simp add: unsigned_minus_1_eq_mask mask_eq_exp_minus_1)
  then have n1: "mem_start s \<noteq> - 1" by auto
  have sb: "mem_sbrk (5 * wsize) s = (mem_start s, ?s1)"
    using ok br by (simp add: mem_sbrk_def wsize_def)
  have addr: "mem_start s + 8 = w64 (?L + 8)" "mem_start s + 32 = w64 (?L + 32)"
    "mem_start s + 8 + 8 = w64 (?L + 16)" "mem_start s + 8 + 16 = w64 (?L + 24)"
    by (simp_all add: w64_def)
  have init: "mm_init s = rbind (extend_heap chunksize ?s7)
             (\<lambda>(b, s8). if b = 0 then Inr (False, s8) else Inr (True, s8))"
    unfolding mm_init_def sb
    using n1 vs
    by (simp add: Let_def store_ok prev_field_def next_field_def addr st[symmetric]
        w64_add_num add.assoc del: fun_upd_apply)
  have neq: "w64 (?L + 8) \<noteq> w64 (?L + 32)" "w64 (?L + 8) \<noteq> w64 (?L + 16)"
    "w64 (?L + 8) \<noteq> w64 (?L + 24)" "w64 (?L + 32) \<noteq> w64 (?L + 16)"
    "w64 (?L + 32) \<noteq> w64 (?L + 24)" "w64 (?L + 16) \<noteq> w64 (?L + 24)"
    using Lb by (simp_all add: w64_inj)
  have "heap_mem ?m ?L (?L + 40) [] []"
    using al Lb neq
    by (simp add: heap_mem_def heap_tags_def dll_def nxt_def prv_def add.assoc)
  then have "heap_struct ?s7 [] []"
    using brk1 by (simp add: heap_struct_def del: fun_upd_apply)
  with init br show ?thesis
    by (intro exI[of _ ?s7]) (simp del: fun_upd_apply)
qed


lemma round_up_chunksize: "round_up chunksize dsize = 4096"
  using round_up_id[of chunksize] by (simp add: chunksize_def)

lemma mm_init_inv:
  assumes f: "fresh s"
  shows "\<exists>ok s'. mm_init s = Inr (ok, s') \<and>
           ((s' = s \<and> \<not> ok) \<or> (\<exists>bs fl. heap_inv s' bs fl \<and> alloc_pos bs = {}))"
proof (cases "unat (mem_brk s) + 40 \<le> unat (mem_max_addr s)")
  case False
  from mm_init_fail[OF this] show ?thesis by (intro exI[of _ False] exI[of _ s]) simp
next
  case True
  from mm_init_root[OF f True] obtain s7 where hs7: "heap_struct s7 [] []"
    and i: "mm_init s = rbind (extend_heap chunksize s7)
             (\<lambda>(b, s8). if b = 0 then Inr (False, s8) else Inr (True, s8))" by blast
  show ?thesis
  proof (cases "unat (mem_brk s7) + unat (round_up chunksize dsize) \<le> unat (mem_max_addr s7)")
    case False
    from extend_heap_fail[OF this] i have "mm_init s = Inr (False, s7)" by simp
    moreover from hs7 have "heap_inv s7 [] []" by (simp add: heap_inv_def)
    ultimately show ?thesis by (intro exI[of _ False] exI[of _ s7]) auto
  next
    case True
    have e: "32 \<le> unat (round_up chunksize dsize)" by (simp add: round_up_chunksize)
    from extend_heap_struct[OF hs7 e True] obtain s8 where
      x: "extend_heap chunksize s7 = Inr (mem_brk s7, s8)"
      and hs8: "heap_struct s8 [(unat (mem_brk s7), unat (round_up chunksize dsize), False)]
                 [unat (mem_brk s7)]" by auto
    from heap_struct_root(4)[OF hs7] have "mem_brk s7 \<noteq> 0" by auto
    with x i have "mm_init s = Inr (True, s8)" by simp
    moreover from hs8 have
      "heap_inv s8 [(unat (mem_brk s7), unat (round_up chunksize dsize), False)] [unat (mem_brk s7)]"
      by (simp add: heap_inv_def)
    ultimately show ?thesis by (intro exI[of _ True] exI[of _ s8]) auto
  qed
qed

section \<open>Allocation\<close>

lemma asize_facts:
  assumes "sz \<noteq> 0" and "unat sz + 31 < 2 ^ 64"
  shows "unat (round_up (sz + dsize) dsize) mod 16 = 0"
    and "32 \<le> unat (round_up (sz + dsize) dsize)"
    and "unat sz + 16 \<le> unat (round_up (sz + dsize) dsize)"
proof -
  let ?a = "unat (round_up (sz + dsize) dsize)"
  show "?a mod 16 = 0" using round_up_aligned[of "sz + dsize"] by (simp add: and15_iff)
  from assms(2) have u: "unat (sz + dsize) = unat sz + 16"
    by (simp add: dsize_def wsize_def unat_word_ariths)
  with assms(2) have "unat (sz + dsize) + 15 < 2 ^ 64" by simp
  from round_up_noov[OF this] u have a: "?a = 16 * ((unat sz + 31) div 16)" by simp
  from assms(1) have "1 \<le> unat sz" by (simp add: unat_gt_0 Suc_le_eq)
  then have "2 \<le> (unat sz + 31) div 16" by simp
  with a show "32 \<le> ?a" by simp
  have "unat sz + 31 < 16 * ((unat sz + 31) div 16) + 16"
    using dividend_less_times_div[of 16 "unat sz + 31"] by (simp add: mult.commute)
  with a show "unat sz + 16 \<le> ?a" by simp
qed

lemma heap_struct_root_nonzero:
  assumes "heap_struct s bs fl" shows "free_root s \<noteq> 0"
proof -
  note r = heap_struct_root[OF assms]
  from r(4) unat_bound[of "mem_brk s"] have "unat (mem_start s) + 8 < 2 ^ 64" by simp
  with r(1) show ?thesis by (simp add: w64_eq_0)
qed

lemma no_adj_free_next:
  "no_adj_free (xs @ (p, n, False) # ys) \<Longrightarrow> ys = [] \<or> snd (snd (hd ys))"
  by (auto simp: no_adj_free_append no_adj_free_Cons)

lemma malloc_found:
  assumes hi: "heap_inv s bs fl" and sz: "sz \<noteq> 0" "unat sz + 31 < 2 ^ 64"
    and f: "find (\<lambda>q. round_up (sz + dsize) dsize \<le> extract_size (mem s (w64 q))) fl = Some q"
  shows "\<exists>s' bs' fl'. malloc sz s = Some (Inr (w64 (q + 8), s')) \<and> heap_inv s' bs' fl' \<and>
           w64 (q + 8) \<noteq> 0 \<and> q \<notin> alloc_pos bs \<and> alloc_pos bs' = insert q (alloc_pos bs) \<and>
           (\<exists>k. (q, k, True) \<in> set bs' \<and> unat sz + 16 \<le> k)"
proof -
  let ?asize = "round_up (sz + dsize) dsize"
  let ?a = "unat ?asize"
  from hi have hs: "heap_struct s bs fl" and sub: "free_pos bs \<subseteq> set fl" and naf: "no_adj_free bs"
    by (simp_all add: heap_inv_def)
  from f have qin: "q \<in> set fl" and fit: "?asize \<le> extract_size (mem s (w64 q))"
    by (auto simp: find_Some_iff)
  from qin heap_struct_fl(2)[OF hs] obtain n where b: "(q, n, False) \<in> set bs"
    by (auto dest: free_posD)
  note g = heap_struct_block[OF hs b]
  from g have nb: "n < 2 ^ 64" "q + 8 < 2 ^ 64" "q < 2 ^ 64" by simp_all
  from fit g(7) g(4) nb have "?asize \<le> w64 n" by (simp add: extract_size_w64)
  then have an: "?a \<le> n" using nb by (simp add: word_le_nat_alt unat_w64)
  from b obtain xs ys where bs: "bs = xs @ (q, n, False) # ys" by (auto dest: split_list)
  note af = asize_facts[OF sz]
  from place_inv[of s xs q n ys fl ?a] hs sub naf af an bs
    no_adj_free_flip[of xs q n False ys] no_adj_free_next[of xs q n ys]
  obtain s' bs' fl' k where p: "place (w64 q) ?asize s = Inr s'" and hi': "heap_inv s' bs' fl'"
    and ap: "alloc_pos bs' = insert q (alloc_pos (xs @ ys))"
    and k: "(q, k, True) \<in> set bs'" "?a \<le> k"
    by (auto simp: w64_unat)
  from chain_alloc_notin[of _ xs q n False ys] heap_struct_chain[OF hs] bs
  have qa: "q \<notin> alloc_pos bs" by simp
  from ap bs have ap': "alloc_pos bs' = insert q (alloc_pos bs)" by simp
  have nz: "w64 q \<noteq> 0" "w64 (q + 8) \<noteq> 0" using nb g(1) by (simp_all add: w64_eq_0)
  have ff: "find_fit s ?asize = Some (Inr (w64 q))"
    using find_fit_struct[OF hs, of ?asize] f by simp
  have "malloc sz s = Some (Inr (w64 (q + 8), s'))"
    using heap_struct_root_nonzero[OF hs] sz(1) ff nz p
    by (simp add: malloc_def Let_def header_to_payload_def w64_add_num)
  moreover from k af(3) have "unat sz + 16 \<le> k" by simp
  ultimately show ?thesis using hi' nz qa ap' k(1) by blast
qed


lemma find_fit_null:
  assumes hs: "heap_struct s bs fl"
  shows "find_fit s asize = Some (Inr 0) \<longleftrightarrow>
         find (\<lambda>q. asize \<le> extract_size (mem s (w64 q))) fl = None"
proof (cases "find (\<lambda>q. asize \<le> extract_size (mem s (w64 q))) fl")
  case None
  with find_fit_struct[OF hs, of asize] show ?thesis by simp
next
  case (Some q)
  then have "q \<in> set fl" by (auto simp: find_Some_iff)
  with heap_struct_fl(2)[OF hs] obtain n where b: "(q, n, False) \<in> set bs"
    by (auto dest: free_posD)
  from heap_struct_block[OF hs b] have "q < 2 ^ 64" "q \<noteq> 0" by simp_all
  then have "w64 q \<noteq> 0" by (simp add: w64_eq_0)
  with find_fit_struct[OF hs, of asize] Some show ?thesis by simp
qed

lemma extend_size:
  assumes "sz \<noteq> 0" and "unat sz + 31 < 2 ^ 64"
  shows "round_up (max_size (round_up (sz + dsize) dsize) chunksize) dsize =
         max_size (round_up (sz + dsize) dsize) chunksize"
    and "unat (round_up (sz + dsize) dsize) \<le> unat (max_size (round_up (sz + dsize) dsize) chunksize)"
    and "4096 \<le> unat (max_size (round_up (sz + dsize) dsize) chunksize)"
proof -
  let ?asize = "round_up (sz + dsize) dsize"
  show 1: "round_up (max_size ?asize chunksize) dsize = max_size ?asize chunksize"
    by (rule round_up_id[OF max_size_aligned[OF round_up_aligned]])
  show "unat ?asize \<le> unat (max_size ?asize chunksize)"
    by (auto simp: max_size_def word_le_nat_alt[symmetric])
  from extend_size_pos[OF round_up_aligned, of "sz + dsize"] 1
  show "4096 \<le> unat (max_size ?asize chunksize)" by simp
qed

lemma malloc_no_room:
  assumes hi: "heap_inv s bs fl" and sz: "sz \<noteq> 0"
    and f: "find_fit s (round_up (sz + dsize) dsize) = Some (Inr 0)"
    and no: "\<not> unat (mem_brk s) + unat (round_up (max_size (round_up (sz + dsize) dsize) chunksize) dsize)
               \<le> unat (mem_max_addr s)"
  shows "malloc sz s = Some (Inr (0, s))"
  using heap_struct_root_nonzero[OF heap_inv_struct[OF hi]] sz f extend_heap_fail[OF no]
  by (simp add: malloc_def Let_def)

lemma malloc_extend:
  assumes hi: "heap_inv s bs fl" and sz: "sz \<noteq> 0" "unat sz + 31 < 2 ^ 64"
    and f: "find_fit s (round_up (sz + dsize) dsize) = Some (Inr 0)"
    and ok: "unat (mem_brk s) + unat (max_size (round_up (sz + dsize) dsize) chunksize)
               \<le> unat (mem_max_addr s)"
  defines "B \<equiv> unat (mem_brk s)" and "a \<equiv> unat (round_up (sz + dsize) dsize)"
    and "e \<equiv> unat (max_size (round_up (sz + dsize) dsize) chunksize)"
  shows "\<exists>s'. malloc sz s = Some (Inr (mem_brk s + 8, s')) \<and>
           mem_brk s' = mem_brk s + max_size (round_up (sz + dsize) dsize) chunksize \<and>
           (if a + 32 \<le> e
            then heap_inv s' (bs @ [(B, a, True), (B + a, e - a, False)]) (fl @ [B + a])
            else heap_inv s' (bs @ [(B, e, True)]) fl)"
proof -
  let ?asize = "round_up (sz + dsize) dsize"
  let ?ext = "max_size ?asize chunksize"
  from hi have hs: "heap_struct s bs fl" and sub: "free_pos bs \<subseteq> set fl" and naf: "no_adj_free bs"
    by (simp_all add: heap_inv_def)
  note af = asize_facts[OF sz]
  note es = extend_size[OF sz]
  have e32: "32 \<le> unat (round_up ?ext dsize)" using es by simp
  have ok': "unat (mem_brk s) + unat (round_up ?ext dsize) \<le> unat (mem_max_addr s)"
    using ok es by simp
  from extend_heap_struct[OF hs e32 ok'] obtain s1 where
    x: "extend_heap ?ext s = Inr (mem_brk s, s1)"
    and hs1: "heap_struct s1 (bs @ [(B, e, False)]) (fl @ [B])"
    and brk1: "mem_brk s1 = mem_brk s + ?ext"
    by (auto simp: es B_def e_def)
  note hs1' = hs1[simplified]
  have sub1: "free_pos (bs @ (B, e, False) # []) \<subseteq> set (fl @ [B])" using sub by auto
  have naf1: "no_adj_free (bs @ (B, e, True) # [])"
    using naf by (auto simp: no_adj_free_append no_adj_free_Cons)
  have Bn: "B \<notin> set fl"
  proof
    assume "B \<in> set fl"
    with heap_struct_fl(2)[OF hs] obtain k where m: "(B, k, False) \<in> set bs"
      by (auto dest: free_posD)
    from heap_struct_block(2,3)[OF hs m] show False by (simp add: B_def)
  qed
  then have rm: "remove1 B (fl @ [B]) = fl" by (simp add: remove1_append)
  from heap_struct_root(4)[OF hs] have b0: "mem_brk s \<noteq> 0" by auto
  have wb: "w64 B = mem_brk s" "w64 a = ?asize" by (simp_all add: B_def a_def w64_unat)
  have pl: "\<exists>s'. place (mem_brk s) ?asize s1 = Inr s' \<and> same_region s1 s' \<and>
           (if a + 32 \<le> e
            then heap_inv s' (bs @ [(B, a, True), (B + a, e - a, False)]) (fl @ [B + a])
            else heap_inv s' (bs @ [(B, e, True)]) fl)"
  proof (cases "a + 32 \<le> e")
    case True
    from place_split[of s1 bs B e "[]" "fl @ [B]" a] hs1 sub1 naf1 af True rm wb
    show ?thesis by (auto simp: a_def)
  next
    case False
    from es(2) have "a \<le> e" by (simp add: a_def e_def)
    moreover from False have "e < a + 32" by simp
    ultimately show ?thesis
      using place_whole[of s1 bs B e "[]" "fl @ [B]" a] hs1 sub1 naf1 rm wb False by auto
  qed
  then obtain s' where p: "place (mem_brk s) ?asize s1 = Inr s'" and sr: "same_region s1 s'"
    and r: "if a + 32 \<le> e
            then heap_inv s' (bs @ [(B, a, True), (B + a, e - a, False)]) (fl @ [B + a])
            else heap_inv s' (bs @ [(B, e, True)]) fl" by blast
  have "malloc sz s = Some (Inr (mem_brk s + 8, s'))"
    using heap_struct_root_nonzero[OF hs] sz(1) f x b0 p
    by (simp add: malloc_def Let_def header_to_payload_def)
  moreover from sr brk1 have "mem_brk s' = mem_brk s + ?ext" by (simp add: same_region_def)
  ultimately show ?thesis using r by blast
qed

section \<open>The invariant under the public operations\<close>

lemma malloc_inv:
  assumes hi: "heap_inv s bs fl" and ok: "unat sz + 31 < 2 ^ 64"
  shows "\<exists>p s' bs' fl'. malloc sz s = Some (Inr (p, s')) \<and> heap_inv s' bs' fl' \<and>
           (if p = 0 then s' = s \<and> bs' = bs
            else \<exists>q k. p = w64 (q + 8) \<and> q \<notin> alloc_pos bs \<and>
                   alloc_pos bs' = insert q (alloc_pos bs) \<and>
                   (q, k, True) \<in> set bs' \<and> unat sz + 16 \<le> k)"
proof (cases "sz = 0")
  case True
  with heap_struct_root_nonzero[OF heap_inv_struct[OF hi]]
  have "malloc sz s = Some (Inr (0, s))" by (simp add: malloc_def)
  with hi show ?thesis by auto
next
  case False
  let ?asize = "round_up (sz + dsize) dsize"
  note hs = heap_inv_struct[OF hi]
  show ?thesis
  proof (cases "find (\<lambda>q. ?asize \<le> extract_size (mem s (w64 q))) fl")
    case (Some q)
    from malloc_found[OF hi False ok Some] show ?thesis by fastforce
  next
    case None
    then have f: "find_fit s ?asize = Some (Inr 0)" by (simp add: find_fit_null[OF hs])
    note es = extend_size[OF False ok]
    show ?thesis
    proof (cases "unat (mem_brk s) + unat (max_size ?asize chunksize) \<le> unat (mem_max_addr s)")
      case no: False
      then have "\<not> unat (mem_brk s) + unat (round_up (max_size ?asize chunksize) dsize)
               \<le> unat (mem_max_addr s)" by (simp add: es)
      from malloc_no_room[OF hi False f this] hi show ?thesis by auto
    next
      case True
      let ?B = "unat (mem_brk s)" and ?a = "unat ?asize" and ?e = "unat (max_size ?asize chunksize)"
      from malloc_extend[OF hi False ok f True] obtain s' where
        m: "malloc sz s = Some (Inr (mem_brk s + 8, s'))"
        and r: "if ?a + 32 \<le> ?e
            then heap_inv s' (bs @ [(?B, ?a, True), (?B + ?a, ?e - ?a, False)]) (fl @ [?B + ?a])
            else heap_inv s' (bs @ [(?B, ?e, True)]) fl" by blast
      note af = asize_facts[OF False ok]
      have p: "mem_brk s + 8 = w64 (?B + 8)" by (simp add: w64_def)
      have "unat (mem_max_addr s) < 2 ^ 64" by (rule unat_bound)
      with True es(3) have "?B + 8 < 2 ^ 64" by simp
      moreover from heap_struct_root(4)[OF hs] have "?B + 8 \<noteq> 0" by simp
      ultimately have nz: "mem_brk s + 8 \<noteq> 0" unfolding p by (simp add: w64_eq_0)
      have Bn: "?B \<notin> alloc_pos bs"
      proof
        assume "?B \<in> alloc_pos bs"
        then obtain k where "(?B, k, True) \<in> set bs" by (auto simp: alloc_pos_def)
        from heap_struct_block(2,3)[OF hs this] show False by simp
      qed
      show ?thesis
      proof (cases "?a + 32 \<le> ?e")
        case True
        with r have h: "heap_inv s' (bs @ [(?B, ?a, True), (?B + ?a, ?e - ?a, False)]) (fl @ [?B + ?a])"
          by simp
        have "\<exists>q k. mem_brk s + 8 = w64 (q + 8) \<and> q \<notin> alloc_pos bs \<and>
                   alloc_pos (bs @ [(?B, ?a, True), (?B + ?a, ?e - ?a, False)]) = insert q (alloc_pos bs) \<and>
                   (q, k, True) \<in> set (bs @ [(?B, ?a, True), (?B + ?a, ?e - ?a, False)]) \<and>
                   unat sz + 16 \<le> k"
          using p Bn af(3) by (intro exI[of _ ?B] exI[of _ ?a]) simp
        with m nz h show ?thesis
          by (intro exI[of _ "mem_brk s + 8"] exI[of _ s']
              exI[of _ "bs @ [(?B, ?a, True), (?B + ?a, ?e - ?a, False)]"] exI[of _ "fl @ [?B + ?a]"])
            simp
      next
        case False
        with r have h: "heap_inv s' (bs @ [(?B, ?e, True)]) fl" by simp
        have "\<exists>q k. mem_brk s + 8 = w64 (q + 8) \<and> q \<notin> alloc_pos bs \<and>
                   alloc_pos (bs @ [(?B, ?e, True)]) = insert q (alloc_pos bs) \<and>
                   (q, k, True) \<in> set (bs @ [(?B, ?e, True)]) \<and> unat sz + 16 \<le> k"
          using p Bn af(3) es(2) by (intro exI[of _ ?B] exI[of _ ?e]) simp
        with m nz h show ?thesis
          by (intro exI[of _ "mem_brk s + 8"] exI[of _ s']
              exI[of _ "bs @ [(?B, ?e, True)]"] exI[of _ fl]) simp
      qed
    qed
  qed
qed


subsection \<open>Writing into a payload\<close>

lemma payload_write_inv:
  assumes hi: "heap_inv s bs fl" and b: "(q, k, True) \<in> set bs"
    and fr: "\<And>c. c < 2 ^ 64 \<Longrightarrow> c < q + 8 \<or> q + k - 8 \<le> c \<Longrightarrow> m' (w64 c) = mem s (w64 c)"
  shows "heap_inv (s\<lparr>mem := m'\<rparr>) bs fl"
proof -
  note hs = heap_inv_struct[OF hi]
  note g = heap_struct_block[OF hs b]
  from b obtain xs ys where bs: "bs = xs @ [(q, k, True)] @ ys" by (auto dest: split_list)
  note r = heap_struct_root[OF hs]
  have B: "unat (mem_brk s) < 2 ^ 64" by (rule unat_bound)
  have c': "chain (unat (mem_start s) + 40) (xs @ [(q, k, True)] @ ys) (unat (mem_brk s))"
    using heap_struct_chain[OF hs] bs by simp
  have fl: "set fl \<subseteq> free_pos xs \<union> free_pos ys" using heap_struct_fl(2)[OF hs] bs by simp
  have "m' (w64 q) = mem s (w64 q)" by (rule fr) (use g in simp_all)
  moreover have "m' (w64 (q + k - 8)) = mem s (w64 (q + k - 8))" by (rule fr) (use g in simp_all)
  ultimately have tg: "tags_ok m' [(q, k, True)]" using g by simp
  have fr': "m' (w64 c) = mem s (w64 c)"
    if "c < 2 ^ 64" "\<forall>(p, n, al) \<in> set [(q, k, True)]. c < p \<or> p + n \<le> c" for c
    by (rule fr) (use that g in auto)
  have hm: "heap_mem (mem s) (unat (mem_start s)) (unat (mem_brk s)) (xs @ [(q, k, True)] @ ys) fl"
    using r(7) bs by simp
  have "heap_mem m' (unat (mem_start s)) (unat (mem_brk s)) (xs @ [(q, k, True)] @ ys) fl"
    by (rule heap_mem_replace[OF hm c' B fl tg fr'])
  with hi bs show ?thesis by (simp add: heap_inv_def heap_struct_def)
qed

lemma payload_range:
  assumes hs: "heap_struct s bs fl" and b: "(q, k, True) \<in> set bs" and n: "unat n + 16 \<le> k"
  shows "range_ok s (w64 (q + 8)) n"
    and "\<And>c. c < 2 ^ 64 \<Longrightarrow> c < q + 8 \<or> q + k - 8 \<le> c \<Longrightarrow>
           \<not> (w64 (q + 8) \<le> w64 c \<and> w64 c - w64 (q + 8) < n)"
proof -
  note g = heap_struct_block[OF hs b]
  from g have qb: "q + 8 < 2 ^ 64" by simp
  have "(q + 8) mod 8 = 0" using mod16_8[OF g(5)] by (simp add: mod_add_zero')
  with qb have "w64 (q + 8) AND 7 = 0" by (simp add: w64_and7)
  moreover have "mem_start s \<le> w64 (q + 8)"
    using g(1) qb by (simp add: word_le_nat_alt unat_w64)
  moreover have "unat (w64 (q + 8)) + unat n \<le> unat (mem_brk s)"
    using g n qb by (simp add: unat_w64)
  ultimately show "range_ok s (w64 (q + 8)) n" by (simp add: range_ok_def)
  fix c :: nat assume c: "c < 2 ^ 64" and o: "c < q + 8 \<or> q + k - 8 \<le> c"
  show "\<not> (w64 (q + 8) \<le> w64 c \<and> w64 c - w64 (q + 8) < n)"
  proof (cases "c < q + 8")
    case True
    with c qb show ?thesis by (simp add: w64_le)
  next
    case False
    with o have ge: "q + k - 8 \<le> c" by simp
    from False have "w64 c - w64 (q + 8) = w64 (c - (q + 8))" by (simp add: w64_sub)
    moreover have "\<not> w64 (c - (q + 8)) < w64 (unat n)"
      using ge n g(3) c unat_bound[of n] by (simp add: w64_less)
    ultimately show ?thesis by (simp add: w64_unat)
  qed
qed

lemma memset_inv:
  assumes hi: "heap_inv s bs fl" and b: "(q, k, True) \<in> set bs" and n: "unat n + 16 \<le> k"
  shows "\<exists>s'. memset (w64 (q + 8)) c n s = Inr s' \<and> heap_inv s' bs fl"
proof -
  note p = payload_range[OF heap_inv_struct[OF hi] b n]
  let ?m = "\<lambda>x. if x AND 7 = 0 \<and> w64 (q + 8) \<le> x \<and> x - w64 (q + 8) < n
                 then blend (unat (n - (x - w64 (q + 8)))) (ucast c * 0x0101010101010101) (mem s x)
                 else mem s x"
  have "heap_inv (s\<lparr>mem := ?m\<rparr>) bs fl"
    by (rule payload_write_inv[OF hi b]) (use p(2) in auto)
  with p(1) show ?thesis by (simp add: memset_def)
qed

lemma memcpy_inv:
  assumes hi: "heap_inv s bs fl" and b: "(q, k, True) \<in> set bs" and n: "unat n + 16 \<le> k"
    and src: "range_ok s src n"
  shows "\<exists>s'. memcpy (w64 (q + 8)) src n s = Inr s' \<and> heap_inv s' bs fl"
proof -
  note p = payload_range[OF heap_inv_struct[OF hi] b n]
  let ?m = "\<lambda>x. if x AND 7 = 0 \<and> w64 (q + 8) \<le> x \<and> x - w64 (q + 8) < n
                 then blend (unat (n - (x - w64 (q + 8)))) (mem s (src + (x - w64 (q + 8)))) (mem s x)
                 else mem s x"
  have "heap_inv (s\<lparr>mem := ?m\<rparr>) bs fl"
    by (rule payload_write_inv[OF hi b]) (use p(2) in auto)
  with p(1) src show ?thesis by (simp add: memcpy_def)
qed

section \<open>Reachable states\<close>

lemma payloadsD:
  assumes "p \<in> payloads bs"
  obtains q k where "p = w64 (q + 8)" and "(q, k, True) \<in> set bs"
  using assms by (auto simp: payloads_def alloc_pos_def)

lemma payload_inj:
  assumes hs: "heap_struct s bs fl" and q: "q \<in> alloc_pos bs" and q': "q' \<in> alloc_pos bs"
    and e: "w64 (q + 8) = w64 (q' + 8)"
  shows "q = q'"
proof -
  from q q' obtain k k' where b: "(q, k, True) \<in> set bs" "(q', k', True) \<in> set bs"
    by (auto simp: alloc_pos_def)
  from heap_struct_block(3,6)[OF hs b(1)] heap_struct_block(3,6)[OF hs b(2)]
  have "q + 8 < 2 ^ 64" "q' + 8 < 2 ^ 64" by simp_all
  with e show ?thesis by (simp add: w64_inj)
qed

lemma payloads_nonzero:
  assumes hs: "heap_struct s bs fl" shows "0 \<notin> payloads bs"
proof
  assume "0 \<in> payloads bs"
  then obtain q k where z: "0 = w64 (q + 8)" and b: "(q, k, True) \<in> set bs" by (rule payloadsD)
  from heap_struct_block(3,6)[OF hs b] have "q + 8 < 2 ^ 64" by simp
  with z show False by (simp add: w64_eq_0 eq_commute[of 0])
qed

lemma payloads_insert:
  "alloc_pos bs' = insert q (alloc_pos bs) \<Longrightarrow> payloads bs' = insert (w64 (q + 8)) (payloads bs)"
  by (simp add: payloads_def)

lemma payloads_remove:
  assumes hs: "heap_struct s bs fl" and q: "q \<in> alloc_pos bs"
    and a: "alloc_pos bs' = alloc_pos bs - {q}"
  shows "payloads bs' = payloads bs - {w64 (q + 8)}"
proof -
  have "inj_on (\<lambda>q. w64 (q + 8)) (alloc_pos bs)"
    by (rule inj_onI) (rule payload_inj[OF hs])
  from inj_on_image_set_diff[OF this, of "alloc_pos bs" "{q}"] q a show ?thesis
    by (simp add: payloads_def)
qed

lemma heap_ok_nonzero: "heap_ok s A \<Longrightarrow> 0 \<notin> A"
  by (auto simp: heap_ok_def dest: payloads_nonzero[OF heap_inv_struct])

lemma heap_ok_inv: "heap_inv s bs fl \<Longrightarrow> heap_ok s (payloads bs)"
  by (auto simp: heap_ok_def)

lemma fresh_not_inv: "fresh s \<Longrightarrow> \<not> heap_inv s bs fl"
  by (auto simp: fresh_def dest: heap_struct_root_nonzero[OF heap_inv_struct])

lemma init_ok:
  assumes ok: "heap_ok s A" and z: "free_root s = 0" and i: "mm_init s = Inr (b, s')"
  shows "heap_ok s' A"
proof -
  from ok z have f: "fresh s" and A: "A = {}"
    by (auto simp: heap_ok_def dest: heap_struct_root_nonzero[OF heap_inv_struct])
  from mm_init_inv[OF f] i have "s' = s \<or> (\<exists>bs fl. heap_inv s' bs fl \<and> alloc_pos bs = {})"
    by auto
  then show ?thesis
  proof
    assume "s' = s"
    with ok show ?thesis by simp
  next
    assume "\<exists>bs fl. heap_inv s' bs fl \<and> alloc_pos bs = {}"
    then obtain bs fl where "heap_inv s' bs fl" "alloc_pos bs = {}" by blast
    with A show ?thesis by (auto simp: heap_ok_def payloads_def)
  qed
qed

lemma free_ok:
  assumes ok: "heap_ok s A" and p: "p \<in> A" and f: "free p s = Inr s'"
  shows "heap_ok s' (A - {p})"
proof -
  from ok p obtain bs fl where hi: "heap_inv s bs fl" and A: "A = payloads bs"
    by (auto simp: heap_ok_def)
  from p A obtain q k where pq: "p = w64 (q + 8)" and b: "(q, k, True) \<in> set bs"
    by (auto elim: payloadsD)
  from free_inv[OF hi b] f pq obtain bs' fl' where hi': "heap_inv s' bs' fl'"
    and a: "alloc_pos bs' = alloc_pos bs - {q}" by auto
  from b have "q \<in> alloc_pos bs" by (auto simp: alloc_pos_def)
  from payloads_remove[OF heap_inv_struct[OF hi] this a] A pq
  have "payloads bs' = A - {p}" by simp
  with hi' show ?thesis by (auto simp: heap_ok_def)
qed

lemma malloc_inv_ok:
  assumes hi: "heap_inv s bs fl" and sz: "unat sz + 31 < 2 ^ 64"
    and m: "malloc sz s = Some (Inr (p, s'))"
  shows "heap_ok s' (if p = 0 then payloads bs else insert p (payloads bs))"
proof -
  from malloc_inv[OF hi sz] m obtain bs' fl' where hi': "heap_inv s' bs' fl'"
    and r: "if p = 0 then s' = s \<and> bs' = bs
            else \<exists>q k. p = w64 (q + 8) \<and> q \<notin> alloc_pos bs \<and>
                   alloc_pos bs' = insert q (alloc_pos bs) \<and>
                   (q, k, True) \<in> set bs' \<and> unat sz + 16 \<le> k" by auto
  show ?thesis
  proof (cases "p = 0")
    case True
    with r hi show ?thesis by (auto simp: heap_ok_def)
  next
    case False
    with r obtain q where "p = w64 (q + 8)" "alloc_pos bs' = insert q (alloc_pos bs)" by auto
    with payloads_insert[of bs' q bs] hi' False show ?thesis by (auto simp: heap_ok_def)
  qed
qed

lemma malloc_fresh:
  assumes f: "fresh s" and m: "malloc sz s = Some (Inr (p, s'))"
  shows "(p = 0 \<and> s' = s) \<or>
         (\<exists>s0 bs fl. heap_inv s0 bs fl \<and> alloc_pos bs = {} \<and> malloc sz s0 = Some (Inr (p, s')))"
proof -
  from f have z: "free_root s = 0" and e: "mem_brk s = mem_start s" by (simp_all add: fresh_def)
  from mm_init_inv[OF f] obtain b s0 where i: "mm_init s = Inr (b, s0)"
    and c: "(s0 = s \<and> \<not> b) \<or> (\<exists>bs fl. heap_inv s0 bs fl \<and> alloc_pos bs = {})" by blast
  from c show ?thesis
  proof
    assume "s0 = s \<and> \<not> b"
    then have s0: "s0 = s" by simp
    have nv: "\<not> valid s (next_field 0)"
      using e by (auto simp: valid_def next_field_def word_le_nat_alt)
    show ?thesis
    proof (cases "sz = 0")
      case True
      with m z i s0 show ?thesis by (simp add: malloc_def)
    next
      case False
      with m z i s0 nv show ?thesis
        by (simp add: malloc_def Let_def find_fit_def get_next_free_def load_def)
    qed
  next
    assume "\<exists>bs fl. heap_inv s0 bs fl \<and> alloc_pos bs = {}"
    then obtain bs fl where hi: "heap_inv s0 bs fl" and a: "alloc_pos bs = {}" by blast
    from heap_struct_root_nonzero[OF heap_inv_struct[OF hi]] have "free_root s0 \<noteq> 0" .
    with m z i have "malloc sz s0 = Some (Inr (p, s'))" by (simp add: malloc_def)
    with hi a show ?thesis by blast
  qed
qed

lemma malloc_ok:
  assumes ok: "heap_ok s A" and sz: "unat sz + 31 < 2 ^ 64"
    and m: "malloc sz s = Some (Inr (p, s'))"
  shows "heap_ok s' (if p = 0 then A else insert p A)"
proof -
  from ok consider "fresh s" "A = {}" | bs fl where "heap_inv s bs fl" "A = payloads bs"
    by (auto simp: heap_ok_def)
  then show ?thesis
  proof cases
    case 1
    from malloc_fresh[OF 1(1) m] show ?thesis
    proof
      assume "p = 0 \<and> s' = s"
      with ok show ?thesis by simp
    next
      assume "\<exists>s0 bs fl. heap_inv s0 bs fl \<and> alloc_pos bs = {} \<and> malloc sz s0 = Some (Inr (p, s'))"
      then obtain s0 bs fl where hi: "heap_inv s0 bs fl" and a: "alloc_pos bs = {}"
        and m0: "malloc sz s0 = Some (Inr (p, s'))" by blast
      from a have "payloads bs = {}" by (simp add: payloads_def)
      with malloc_inv_ok[OF hi sz m0] 1(2) show ?thesis by (cases "p = 0") simp_all
    qed
  next
    case 2
    with malloc_inv_ok[OF 2(1) sz m] show ?thesis by (cases "p = 0") simp_all
  qed
qed


lemma malloc_block:
  assumes ok: "heap_ok s A" and sz: "unat sz + 31 < 2 ^ 64"
    and m: "malloc sz s = Some (Inr (p, s'))" and nz: "p \<noteq> 0"
  shows "\<exists>bs' fl' q k. heap_inv s' bs' fl' \<and> payloads bs' = insert p A \<and> p = w64 (q + 8) \<and>
           (q, k, True) \<in> set bs' \<and> unat sz + 16 \<le> k \<and> p \<notin> A \<and>
           (\<forall>q'. w64 (q' + 8) \<in> A \<longrightarrow> q' \<in> alloc_pos bs' \<longrightarrow> q' \<noteq> q)"
proof -
  have "\<exists>s0 bs fl. heap_inv s0 bs fl \<and> A = payloads bs \<and> malloc sz s0 = Some (Inr (p, s'))"
  proof -
    from ok consider "fresh s" "A = {}" | bs fl where "heap_inv s bs fl" "A = payloads bs"
      by (auto simp: heap_ok_def)
    then show ?thesis
    proof cases
      case 1
      from malloc_fresh[OF 1(1) m] nz obtain s0 bs fl where "heap_inv s0 bs fl"
        "alloc_pos bs = {}" "malloc sz s0 = Some (Inr (p, s'))" by blast
      with 1(2) show ?thesis by (auto simp: payloads_def)
    next
      case 2
      with m show ?thesis by blast
    qed
  qed
  then obtain s0 bs fl where hi: "heap_inv s0 bs fl" and A: "A = payloads bs"
    and m0: "malloc sz s0 = Some (Inr (p, s'))" by blast
  from malloc_inv[OF hi sz] m0 nz obtain bs' fl' q k where hi': "heap_inv s' bs' fl'"
    and pq: "p = w64 (q + 8)" and qn: "q \<notin> alloc_pos bs"
    and a: "alloc_pos bs' = insert q (alloc_pos bs)"
    and b: "(q, k, True) \<in> set bs'" "unat sz + 16 \<le> k" by auto
  note hs' = heap_inv_struct[OF hi']
  have inj: "q' = q" if "q' \<in> alloc_pos bs'" "w64 (q' + 8) = w64 (q + 8)" for q'
    using payload_inj[OF hs' that(1) _ that(2)] a by simp
  have pn: "p \<notin> A"
  proof
    assume "p \<in> A"
    with A obtain q' where "q' \<in> alloc_pos bs" "p = w64 (q' + 8)" by (auto simp: payloads_def)
    with inj[of q'] a pq qn show False by auto
  qed
  have "\<forall>q'. w64 (q' + 8) \<in> A \<longrightarrow> q' \<in> alloc_pos bs' \<longrightarrow> q' \<noteq> q"
    using pn pq by auto
  with hi' payloads_insert[OF a] A pq b pn show ?thesis by blast
qed

lemma calloc_ok:
  assumes ok: "heap_ok s A" and sz: "unat (n * sz) + 31 < 2 ^ 64"
    and c: "calloc n sz s = Some (Inr (p, s'))"
  shows "heap_ok s' (if p = 0 then A else insert p A)"
proof -
  from c have n0: "n \<noteq> 0" by (auto simp: calloc_def)
  show ?thesis
  proof (cases "(n * sz) div n \<noteq> sz")
    case True
    with c n0 ok show ?thesis by (simp add: calloc_def)
  next
    case False
    with c n0 obtain bp s1 where m: "malloc (n * sz) s = Some (Inr (bp, s1))"
      and r: "(if bp = 0 then Some (Inr (0, s1))
               else Some (rbind (memset bp 0 (n * sz) s1) (\<lambda>s2. Inr (bp, s2)))) = Some (Inr (p, s'))"
      by (auto simp: calloc_def Let_def split: option.splits sum.splits)
    show ?thesis
    proof (cases "bp = 0")
      case True
      with r malloc_ok[OF ok sz m] show ?thesis by simp
    next
      case False
      from malloc_block[OF ok sz m False] obtain bs' fl' q k where hi: "heap_inv s1 bs' fl'"
        and P: "payloads bs' = insert bp A" and bq: "bp = w64 (q + 8)"
        and b: "(q, k, True) \<in> set bs'" "unat (n * sz) + 16 \<le> k" by blast
      from b(2) have "unat (n * sz) + 16 \<le> k" .
      from memset_inv[OF hi b(1) this, of 0] obtain s2 where
        "memset (w64 (q + 8)) 0 (n * sz) s1 = Inr s2" "heap_inv s2 bs' fl'" by blast
      with r False bq P show ?thesis by (auto simp: heap_ok_def)
    qed
  qed
qed


lemma realloc_move:
  assumes hi: "heap_inv s1 bs fl" and P: "payloads bs = insert np A" and pA: "p \<in> A"
    and npA: "np \<notin> A" and nq: "np = w64 (qn + 8)" and bn: "(qn, kn, True) \<in> set bs"
    and kn: "unat sz + 16 \<le> kn"
    and r: "rbind (get_payload_size s1 (payload_to_header p)) (\<lambda>copysize.
              let copysize = (if sz < copysize then sz else copysize) in
              rbind (memcpy np p copysize s1) (\<lambda>s2.
              rbind (free p s2) (\<lambda>s3. Inr (np, s3)))) = Inr (q, s')"
  shows "q = np \<and> heap_ok s' (insert np (A - {p}))"
proof -
  note hs = heap_inv_struct[OF hi]
  from pA P have "p \<in> payloads bs" by simp
  then obtain qo ko where po: "p = w64 (qo + 8)" and bo: "(qo, ko, True) \<in> set bs"
    by (rule payloadsD)
  note g = heap_struct_block[OF hs bo]
  have ph: "payload_to_header p = w64 qo" by (simp add: po payload_to_header_def w64_sub_num)
  have gp: "get_payload_size s1 (w64 qo) = Inr (w64 (ko - 16))"
    using header_read(2)[OF hs bo] g(3)
    by (simp add: get_payload_size_def dsize_def wsize_def w64_sub_num)
  define cs where "cs = (if sz < w64 (ko - 16) then sz else w64 (ko - 16))"
  have kb: "ko - 16 < 2 ^ 64" using g by simp
  have c1: "unat cs \<le> unat sz"
    by (auto simp: cs_def word_less_nat_alt)
  have c2: "unat cs \<le> ko - 16"
    using kb by (auto simp: cs_def word_less_nat_alt unat_w64)
  from c1 kn have cn: "unat cs + 16 \<le> kn" by simp
  from c2 g(3) have co: "unat cs + 16 \<le> ko" by simp
  have src: "range_ok s1 p cs" unfolding po by (rule payload_range(1)[OF hs bo co])
  from memcpy_inv[OF hi bn cn src] nq obtain s2 where
    mc: "memcpy np p cs s1 = Inr s2" and hi2: "heap_inv s2 bs fl" by auto
  from free_inv[OF hi2 bo] po obtain s3 bs3 fl3 where
    fr: "free p s2 = Inr s3" and hi3: "heap_inv s3 bs3 fl3"
    and a3: "alloc_pos bs3 = alloc_pos bs - {qo}" by auto
  from bo have "qo \<in> alloc_pos bs" by (auto simp: alloc_pos_def)
  from payloads_remove[OF hs this a3] P po have "payloads bs3 = insert np A - {p}" by simp
  moreover from pA npA have "np \<noteq> p" by auto
  ultimately have "payloads bs3 = insert np (A - {p})" by auto
  with hi3 have ok: "heap_ok s3 (insert np (A - {p}))" by (auto simp: heap_ok_def)
  from r ph gp mc fr have "q = np \<and> s' = s3" by (simp add: cs_def Let_def)
  with ok show ?thesis by simp
qed

lemma realloc_ok:
  assumes ok: "heap_ok s A" and p: "p = 0 \<or> p \<in> A" and sz: "unat sz + 31 < 2 ^ 64"
    and r: "realloc p sz s = Some (Inr (q, s'))"
  shows "heap_ok s' (if sz = 0 then A - {p} else if q = 0 then A else insert q (A - {p}))"
proof (cases "sz = 0")
  case True
  with r obtain s1 where f: "free p s = Inr s1" and e: "s' = s1" "q = 0"
    by (auto simp: realloc_def Let_def rbind_eq_Inr)
  from f free_null have "p \<noteq> 0" by auto
  with p have "p \<in> A" by simp
  from free_ok[OF ok this f] True e show ?thesis by simp
next
  case False
  note z = heap_ok_nonzero[OF ok]
  show ?thesis
  proof (cases "p = 0")
    case True
    with r False have m: "malloc sz s = Some (Inr (q, s'))" by (simp add: realloc_def Let_def)
    from True z have "A - {p} = A" by auto
    with malloc_ok[OF ok sz m] False show ?thesis by (cases "q = 0") simp_all
  next
    case pn: False
    with p have pA: "p \<in> A" by simp
    from r False pn obtain np s1 where m: "malloc sz s = Some (Inr (np, s1))"
      and r': "(if np = 0 then Some (Inr (0, s1))
                else Some (rbind (get_payload_size s1 (payload_to_header p)) (\<lambda>copysize.
                    let copysize = (if sz < copysize then sz else copysize) in
                    rbind (memcpy np p copysize s1) (\<lambda>s2.
                    rbind (free p s2) (\<lambda>s3. Inr (np, s3)))))) = Some (Inr (q, s'))"
      by (auto simp: realloc_def Let_def split: option.splits sum.splits)
    show ?thesis
    proof (cases "np = 0")
      case True
      with r' malloc_ok[OF ok sz m] False show ?thesis by simp
    next
      case npz: False
      from malloc_block[OF ok sz m npz] obtain bs fl qn kn where hi: "heap_inv s1 bs fl"
        and P: "payloads bs = insert np A" and nq: "np = w64 (qn + 8)"
        and bn: "(qn, kn, True) \<in> set bs" and kn: "unat sz + 16 \<le> kn" and npA: "np \<notin> A"
        by blast
      from r' npz have "rbind (get_payload_size s1 (payload_to_header p)) (\<lambda>copysize.
              let copysize = (if sz < copysize then sz else copysize) in
              rbind (memcpy np p copysize s1) (\<lambda>s2.
              rbind (free p s2) (\<lambda>s3. Inr (np, s3)))) = Inr (q, s')" by simp
      from realloc_move[OF hi P pA npA nq bn kn this] npz False show ?thesis by simp
    qed
  qed
qed

lemma reachable_ok: "reachable s A \<Longrightarrow> heap_ok s A"
proof (induction rule: reachable.induct)
  case (r_fresh s)
  then show ?case by (simp add: heap_ok_def)
next
  case (r_init s A ok s')
  then show ?case by (auto intro: init_ok)
next
  case (r_malloc s A sz p s')
  from malloc_ok[OF r_malloc.IH r_malloc.hyps(2,3)] show ?case .
next
  case (r_free s A p s')
  then show ?case by (auto intro: free_ok)
next
  case (r_realloc s A p sz q s')
  from realloc_ok[OF r_realloc.IH r_realloc.hyps(2,3,4)] show ?case .
next
  case (r_calloc s A n sz p s')
  from calloc_ok[OF r_calloc.IH r_calloc.hyps(2,3)] show ?case .
qed

section \<open>The concrete heaps\<close>

lemma mm_init_heap_init: "mm_init (fresh_heap 0x10000 0x20000) = Inr (True, heap_init)"
  by (simp add: model_defs fresh_heap_def heap_init_def Let_def fun_upd_twist)

lemma malloc_fresh_heap:
  "malloc 2000 (fresh_heap 0x10000 0x20000) = Some (Inr (0x10030, heap_one))"
  by (simp add: model_defs fresh_heap_def heap_one_def Let_def find_fit_loop.simps fun_upd_twist)

lemma malloc_heap_one: "malloc 3000 heap_one = Some (Inr (0x11030, heap_two))"
  by (simp add: model_defs heap_one_def heap_two_def Let_def find_fit_loop.simps fun_upd_twist)

lemmas heap_inv_defs = heap_inv_def heap_struct_def heap_mem_def heap_tags_def tags_ok_def
  dll_def nxt_def prv_def w64_def pack_def alloc_mask_def

lemma heap_inv_init: "heap_inv heap_init [(0x10028, 4096, False)] [0x10028]"
  by (simp add: heap_inv_defs heap_init_def)

lemma heap_inv_one:
  "heap_inv heap_one [(0x10028, 2016, True), (0x10808, 2080, False)] [0x10808]"
  by (simp add: heap_inv_defs heap_one_def)

lemma heap_inv_two:
  "heap_inv heap_two [(0x10028, 2016, True), (0x10808, 2080, False),
     (0x11028, 3024, True), (0x11BF8, 1072, False)] [0x10808, 0x11BF8]"
  by (simp add: heap_inv_defs heap_two_def)

lemma fresh_fresh_heap: "fresh (fresh_heap 0x10000 0x20000)"
  by (simp add: fresh_def fresh_heap_def)

lemma reachable_heap_one: "reachable heap_one {0x10030}"
  using r_malloc[OF r_fresh[OF fresh_fresh_heap] _ malloc_fresh_heap] by simp

lemma reachable_heap_two: "reachable heap_two {0x10030, 0x11030}"
  using r_malloc[OF reachable_heap_one _ malloc_heap_one] by (simp add: insert_commute)

lemma heap_inv_faf:
  "heap_inv (three_blocks False True False)
     [(0x10028, 48, False), (0x10058, 32, True), (0x10078, 64, False)] [0x10078, 0x10028]"
  by (simp add: heap_inv_defs three_blocks_def)

lemma pending_fpf:
  "pending (three_blocks False False False) [(0x10028, 48, False)] 0x10058 32
     [(0x10078, 64, False)] [0x10078, 0x10028]"
  by (simp add: pending_def heap_inv_defs three_blocks_def)

lemma pending_fpa:
  "pending (three_blocks False False True) [(0x10028, 48, False)] 0x10058 32
     [(0x10078, 64, True)] [0x10028]"
  by (simp add: pending_def heap_inv_defs three_blocks_def)

lemma pending_apf:
  "pending (three_blocks True False False) [(0x10028, 48, True)] 0x10058 32
     [(0x10078, 64, False)] [0x10078]"
  by (simp add: pending_def heap_inv_defs three_blocks_def)

lemma pending_apa:
  "pending (three_blocks True False True) [(0x10028, 48, True)] 0x10058 32
     [(0x10078, 64, True)] []"
  by (simp add: pending_def heap_inv_defs three_blocks_def)

section \<open>Alignment of the results\<close>

lemma extend_heap_result:
  assumes "extend_heap sz s = Inr (b, s')"
  shows "b = 0 \<or> b = mem_brk s"
  using assms
  by (auto simp: extend_heap_def mem_sbrk_def Let_def rbind_eq_Inr split: if_splits)

lemma aligned_iff: "aligned p \<longleftrightarrow> round_up p dsize = p"
  by (simp add: aligned_def align_def ALIGNMENT_def round_up_def dsize_def wsize_def
      add.commute add.left_commute)

lemma aligned_and15: "p AND 15 = 0 \<Longrightarrow> aligned p"
  by (simp add: aligned_iff round_up_id)

lemma unat_plus8_mod16:
  assumes "unat (x :: 64 word) mod 16 = 8"
  shows "unat (x + 8) mod 16 = 0"
proof -
  have "unat (x + 8) = (unat x + 8) mod 2 ^ 64" by (simp add: unat_word_ariths)
  also have "\<dots> mod 16 = (unat x + 8) mod 16"
    by (rule mod_mod_cancel) simp
  also from assms have "\<dots> = 0" by presburger
  finally show ?thesis .
qed

lemma malloc_result_inv:
  assumes hi: "heap_inv s bs fl" and m: "malloc sz s = Some (Inr (p, s'))"
  shows "p = 0 \<or> p = mem_brk s + 8 \<or> (\<exists>q \<in> set fl. p = w64 q + 8)"
proof -
  note hs = heap_inv_struct[OF hi]
  note nz = heap_struct_root_nonzero[OF hs]
  let ?asize = "round_up (sz + dsize) dsize"
  let ?found = "case find (\<lambda>q. ?asize \<le> extract_size (mem s (w64 q))) fl of
                  None \<Rightarrow> 0 | Some q \<Rightarrow> w64 q"
  note ff = find_fit_struct[OF hs, of ?asize]
  show ?thesis
  proof (cases "sz = 0")
    case True
    with m nz show ?thesis by (simp add: malloc_def)
  next
    case False
    show ?thesis
    proof (cases "?found = 0")
      case True
      with m nz False ff obtain b s1 where e: "extend_heap (max_size ?asize chunksize) s = Inr (b, s1)"
        and r: "(if b = 0 then Inr (0, s1)
                 else rbind (place b ?asize s1) (\<lambda>s2. Inr (header_to_payload b, s2))) = Inr (p, s')"
        by (auto simp: malloc_def Let_def rbind_eq_Inr)
      from extend_heap_result[OF e] r show ?thesis
        by (auto simp: rbind_eq_Inr header_to_payload_def split: if_splits)
    next
      case f: False
      then obtain q where q: "find (\<lambda>q. ?asize \<le> extract_size (mem s (w64 q))) fl = Some q"
        and fq: "?found = w64 q" by (auto split: option.splits)
      from q have "q \<in> set fl" by (auto simp: find_Some_iff)
      moreover from m nz False ff f fq have "p = w64 q + 8"
        by (auto simp: malloc_def Let_def rbind_eq_Inr header_to_payload_def)
      ultimately show ?thesis by blast
    qed
  qed
qed

lemma malloc_aligned_inv:
  assumes hi: "heap_inv s bs fl" and m: "malloc sz s = Some (Inr (p, s'))"
  shows "unat p mod 16 = 0"
proof -
  note hs = heap_inv_struct[OF hi]
  note r = heap_struct_root[OF hs]
  have k: "unat (w64 n + 8) mod 16 = 0" if "n mod 16 = 8" "n < 2 ^ 64" for n
    using unat_plus8_mod16[of "w64 n"] that by (simp add: unat_w64)
  from malloc_result_inv[OF hi m]
  consider "p = 0" | "p = mem_brk s + 8" | q where "q \<in> set fl" "p = w64 q + 8" by blast
  then show ?thesis
  proof cases
    case 1
    then show ?thesis by simp
  next
    case 2
    from unat_plus8_mod16[OF r(6)] 2 show ?thesis by simp
  next
    case 3
    from 3(1) heap_struct_fl(2)[OF hs] obtain n where b: "(q, n, False) \<in> set bs"
      by (auto dest: free_posD)
    note f = heap_struct_block[OF hs b]
    from f(6) have "q < 2 ^ 64" by simp
    from k[OF f(5) this] 3(2) show ?thesis by simp
  qed
qed

section \<open>Reachable states\<close>

lemma reachable_inv:
  assumes "reachable s A" and "free_root s \<noteq> 0"
  shows "\<exists>bs fl. heap_inv s bs fl \<and> A = payloads bs"
  using reachable_ok[OF assms(1)] assms(2) by (auto simp: heap_ok_def fresh_def)

lemma heap_inv_no_adj: "heap_inv s bs fl \<Longrightarrow> no_adj_free bs"
  by (simp add: heap_inv_def)

lemma heap_inv_list:
  assumes "heap_inv s bs fl"
  shows "distinct fl \<and> set fl = free_pos bs"
  using heap_struct_fl[OF heap_inv_struct[OF assms]] assms by (auto simp: heap_inv_def)

lemma footer_read:
  assumes hs: "heap_struct s bs fl" and b: "(p, n, al) \<in> set bs"
  shows "load s (w64 (p + n - 8)) = Inr (pack (w64 n) al)"
proof -
  note g = heap_struct_block[OF hs b]
  have "(n - 8) mod 8 = 0" using mod16_0_8[OF g(4)] by (rule mod8_sub)
  from heap_struct_valid_block[OF hs b this] g(3) have "valid s (w64 (p + n - 8))" by simp
  with g(8) show ?thesis by (simp add: load_ok)
qed

lemma find_fit_heap_one: "find_fit heap_one (round_up (3000 + dsize) dsize) = Some (Inr 0)"
  by (simp add: model_defs heap_one_def find_fit_loop.simps)

lemma room_heap_one:
  "unat (mem_brk heap_one) + unat (max_size (round_up (3000 + dsize) dsize) chunksize)
     \<le> unat (mem_max_addr heap_one)"
  by (simp add: model_defs heap_one_def)

lemmas checkheap_defs = mm_checkheap_def checkheap_step_def checkheap_blocks.simps
  checkheap_list.simps aligned_def align_def ALIGNMENT_def

lemma malloc_extend_heap:
  assumes hi: "heap_inv s bs fl" and sz: "sz \<noteq> 0" "unat sz + 31 < 2 ^ 64"
    and ok: "unat (mem_brk s) + unat (max_size (round_up (sz + dsize) dsize) chunksize)
               \<le> unat (mem_max_addr s)"
  shows "\<exists>s1. extend_heap (max_size (round_up (sz + dsize) dsize) chunksize) s = Inr (mem_brk s, s1) \<and>
           heap_struct s1
             (bs @ [(unat (mem_brk s), unat (max_size (round_up (sz + dsize) dsize) chunksize), False)])
             (fl @ [unat (mem_brk s)]) \<and>
           mem_brk s1 = mem_brk s + max_size (round_up (sz + dsize) dsize) chunksize"
proof -
  let ?ext = "max_size (round_up (sz + dsize) dsize) chunksize"
  note hs = heap_inv_struct[OF hi]
  note es = extend_size[OF sz]
  have e32: "32 \<le> unat (round_up ?ext dsize)" using es by simp
  have ok': "unat (mem_brk s) + unat (round_up ?ext dsize) \<le> unat (mem_max_addr s)"
    using ok es by simp
  from extend_heap_struct[OF hs e32 ok'] show ?thesis by (auto simp: es)
qed

section \<open>Growing the heap\<close>

text \<open>
  Claim C1, as the code has it. When \<^verbatim>\<open>malloc\<close> finds no fitting free block it
  extends the heap by the larger of the adjusted size and \<^verbatim>\<open>chunksize\<close>.
  \<^verbatim>\<open>extend_heap\<close> does not coalesce: with \<open>bs\<close> the chain of blocks and \<open>fl\<close>
  the free list before the call, after \<^verbatim>\<open>extend_heap\<close> the chain is \<open>bs\<close> followed
  by the new free block at the old heap top \<open>B\<close>, and the free list is \<open>fl\<close> followed
  by \<open>B\<close>, whether the last block of \<open>bs\<close> is free or not. The request is placed at the
  start of the new block. When the extension \<open>e\<close> exceeds the adjusted size \<open>a\<close> by at
  least 32 bytes the block is split: the chain is \<open>bs\<close>, the allocated block of \<open>a\<close>
  bytes at \<open>B\<close> and the free remainder at \<open>B + a\<close>, and the free list is \<open>fl\<close> followed
  by the remainder. Otherwise the whole new block is allocated and the free list is \<open>fl\<close>.
  So after every sequence of public operations that keeps the contract of the interface,
  in an initialised heap no two physically adjacent blocks are both free.
\<close>

theorem malloc_extend_appends:
  assumes "reachable s A" and "free_root s \<noteq> 0"
  shows "\<exists>bs fl. heap_inv s bs fl \<and> no_adj_free bs \<and>
           (\<forall>sz. sz \<noteq> 0 \<and> unat sz + 31 < 2 ^ 64 \<and>
                 find_fit s (round_up (sz + dsize) dsize) = Some (Inr 0) \<and>
                 unat (mem_brk s) + unat (max_size (round_up (sz + dsize) dsize) chunksize)
                   \<le> unat (mem_max_addr s) \<longrightarrow>
              (let B = unat (mem_brk s); a = unat (round_up (sz + dsize) dsize);
                   e = unat (max_size (round_up (sz + dsize) dsize) chunksize)
               in (\<exists>s1. extend_heap (max_size (round_up (sz + dsize) dsize) chunksize) s
                           = Inr (mem_brk s, s1) \<and>
                         heap_struct s1 (bs @ [(B, e, False)]) (fl @ [B]) \<and>
                         mem_brk s1 = mem_brk s + max_size (round_up (sz + dsize) dsize) chunksize) \<and>
                  (\<exists>s'. malloc sz s = Some (Inr (mem_brk s + 8, s')) \<and>
                     mem_brk s' = mem_brk s + max_size (round_up (sz + dsize) dsize) chunksize \<and>
                     (if a + 32 \<le> e
                      then heap_inv s' (bs @ [(B, a, True), (B + a, e - a, False)]) (fl @ [B + a]) \<and>
                           no_adj_free (bs @ [(B, a, True), (B + a, e - a, False)])
                      else heap_inv s' (bs @ [(B, e, True)]) fl \<and>
                           no_adj_free (bs @ [(B, e, True)])))))"
proof -
  from reachable_inv[OF assms] obtain bs fl where hi: "heap_inv s bs fl" by blast
  have "(\<exists>s1. extend_heap (max_size (round_up (sz + dsize) dsize) chunksize) s
                 = Inr (mem_brk s, s1) \<and>
               heap_struct s1
                 (bs @ [(unat (mem_brk s),
                         unat (max_size (round_up (sz + dsize) dsize) chunksize), False)])
                 (fl @ [unat (mem_brk s)]) \<and>
               mem_brk s1 = mem_brk s + max_size (round_up (sz + dsize) dsize) chunksize) \<and>
        (\<exists>s'. malloc sz s = Some (Inr (mem_brk s + 8, s')) \<and>
           mem_brk s' = mem_brk s + max_size (round_up (sz + dsize) dsize) chunksize \<and>
           (if unat (round_up (sz + dsize) dsize) + 32
                 \<le> unat (max_size (round_up (sz + dsize) dsize) chunksize)
            then heap_inv s'
                   (bs @ [(unat (mem_brk s), unat (round_up (sz + dsize) dsize), True),
                          (unat (mem_brk s) + unat (round_up (sz + dsize) dsize),
                           unat (max_size (round_up (sz + dsize) dsize) chunksize)
                             - unat (round_up (sz + dsize) dsize), False)])
                   (fl @ [unat (mem_brk s) + unat (round_up (sz + dsize) dsize)]) \<and>
                 no_adj_free
                   (bs @ [(unat (mem_brk s), unat (round_up (sz + dsize) dsize), True),
                          (unat (mem_brk s) + unat (round_up (sz + dsize) dsize),
                           unat (max_size (round_up (sz + dsize) dsize) chunksize)
                             - unat (round_up (sz + dsize) dsize), False)])
            else heap_inv s'
                   (bs @ [(unat (mem_brk s),
                           unat (max_size (round_up (sz + dsize) dsize) chunksize), True)]) fl \<and>
                 no_adj_free
                   (bs @ [(unat (mem_brk s),
                           unat (max_size (round_up (sz + dsize) dsize) chunksize), True)])))"
    if sz: "sz \<noteq> 0" "unat sz + 31 < 2 ^ 64"
      and f: "find_fit s (round_up (sz + dsize) dsize) = Some (Inr 0)"
      and ok: "unat (mem_brk s) + unat (max_size (round_up (sz + dsize) dsize) chunksize)
                 \<le> unat (mem_max_addr s)"
    for sz
  proof -
    let ?B = "unat (mem_brk s)" and ?a = "unat (round_up (sz + dsize) dsize)"
      and ?e = "unat (max_size (round_up (sz + dsize) dsize) chunksize)"
    from malloc_extend[OF hi sz f ok] obtain s' where
      m: "malloc sz s = Some (Inr (mem_brk s + 8, s'))"
      and b: "mem_brk s' = mem_brk s + max_size (round_up (sz + dsize) dsize) chunksize"
      and c: "if ?a + 32 \<le> ?e
              then heap_inv s' (bs @ [(?B, ?a, True), (?B + ?a, ?e - ?a, False)]) (fl @ [?B + ?a])
              else heap_inv s' (bs @ [(?B, ?e, True)]) fl"
      by blast
    have "if ?a + 32 \<le> ?e
          then heap_inv s' (bs @ [(?B, ?a, True), (?B + ?a, ?e - ?a, False)]) (fl @ [?B + ?a]) \<and>
               no_adj_free (bs @ [(?B, ?a, True), (?B + ?a, ?e - ?a, False)])
          else heap_inv s' (bs @ [(?B, ?e, True)]) fl \<and> no_adj_free (bs @ [(?B, ?e, True)])"
    proof (cases "?a + 32 \<le> ?e")
      case True
      with c have h: "heap_inv s' (bs @ [(?B, ?a, True), (?B + ?a, ?e - ?a, False)]) (fl @ [?B + ?a])"
        by simp
      from h heap_inv_no_adj[OF h] True show ?thesis by simp
    next
      case False
      with c have h: "heap_inv s' (bs @ [(?B, ?e, True)]) fl" by simp
      from h heap_inv_no_adj[OF h] False show ?thesis by simp
    qed
    with m b malloc_extend_heap[OF hi sz ok] show ?thesis by blast
  qed
  with hi heap_inv_no_adj[OF hi] show ?thesis
    by (intro exI[of _ bs] exI[of _ fl]) (simp add: Let_def)
qed

text \<open>
  The state \<open>heap_one\<close> is reachable and \<^verbatim>\<open>malloc(3000)\<close> finds no fitting block
  in it. The heap grows by 4096 bytes from \<open>0x11028\<close>: \<^verbatim>\<open>extend_heap\<close> appends a
  free block of 4096 bytes to the chain and to the free list, and \<^verbatim>\<open>malloc\<close> leaves
  an allocated block of 3024 bytes and a free remainder of 1072 bytes at \<open>0x11BF8\<close>,
  the last node of the free list.
\<close>

theorem malloc_extend_appends_witness:
  "reachable heap_one {0x10030} \<and> free_root heap_one \<noteq> 0 \<and> (3000 :: size_t) \<noteq> 0 \<and>
   unat (3000 :: size_t) + 31 < 2 ^ 64 \<and>
   find_fit heap_one (round_up (3000 + dsize) dsize) = Some (Inr 0) \<and>
   unat (mem_brk heap_one) + unat (max_size (round_up (3000 + dsize) dsize) chunksize)
     \<le> unat (mem_max_addr heap_one) \<and>
   (\<exists>bs fl. heap_inv heap_one bs fl \<and>
      (\<exists>s1. extend_heap 4096 heap_one = Inr (0x11028, s1) \<and>
         heap_struct s1 (bs @ [(0x11028, 4096, False)]) (fl @ [0x11028])) \<and>
      (\<exists>s'. malloc 3000 heap_one = Some (Inr (0x11030, s')) \<and> mem_brk s' = 0x12028 \<and>
         heap_inv s' (bs @ [(0x11028, 3024, True), (0x11BF8, 1072, False)]) (fl @ [0x11BF8])))"
proof -
  have fr: "free_root heap_one \<noteq> 0" by (simp add: heap_one_def)
  have c: "(3000 :: size_t) \<noteq> 0 \<and> unat (3000 :: size_t) + 31 < 2 ^ 64" by simp
  have v: "unat (mem_brk heap_one) = 0x11028" "mem_brk heap_one = 0x11028"
    "unat (round_up (3000 + dsize) dsize) = 3024"
    "unat (max_size (round_up (3000 + dsize) dsize) chunksize) = 4096"
    "max_size (round_up (3000 + dsize) dsize) chunksize = 4096"
    by (simp_all add: model_defs heap_one_def)
  from malloc_extend_appends[OF reachable_heap_one fr] obtain bs fl where
    hi: "heap_inv heap_one bs fl"
    and imp: "\<forall>sz. sz \<noteq> 0 \<and> unat sz + 31 < 2 ^ 64 \<and>
                 find_fit heap_one (round_up (sz + dsize) dsize) = Some (Inr 0) \<and>
                 unat (mem_brk heap_one) + unat (max_size (round_up (sz + dsize) dsize) chunksize)
                   \<le> unat (mem_max_addr heap_one) \<longrightarrow>
              (let B = unat (mem_brk heap_one); a = unat (round_up (sz + dsize) dsize);
                   e = unat (max_size (round_up (sz + dsize) dsize) chunksize)
               in (\<exists>s1. extend_heap (max_size (round_up (sz + dsize) dsize) chunksize) heap_one
                           = Inr (mem_brk heap_one, s1) \<and>
                         heap_struct s1 (bs @ [(B, e, False)]) (fl @ [B]) \<and>
                         mem_brk s1 = mem_brk heap_one + max_size (round_up (sz + dsize) dsize) chunksize) \<and>
                  (\<exists>s'. malloc sz heap_one = Some (Inr (mem_brk heap_one + 8, s')) \<and>
                     mem_brk s' = mem_brk heap_one + max_size (round_up (sz + dsize) dsize) chunksize \<and>
                     (if a + 32 \<le> e
                      then heap_inv s' (bs @ [(B, a, True), (B + a, e - a, False)]) (fl @ [B + a]) \<and>
                           no_adj_free (bs @ [(B, a, True), (B + a, e - a, False)])
                      else heap_inv s' (bs @ [(B, e, True)]) fl \<and>
                           no_adj_free (bs @ [(B, e, True)]))))"
    by blast
  from imp[rule_format, of 3000] c find_fit_heap_one room_heap_one
  have "(\<exists>s1. extend_heap 4096 heap_one = Inr (0x11028, s1) \<and>
           heap_struct s1 (bs @ [(0x11028, 4096, False)]) (fl @ [0x11028]) \<and>
           mem_brk s1 = 0x12028) \<and>
        (\<exists>s'. malloc 3000 heap_one = Some (Inr (0x11030, s')) \<and> mem_brk s' = 0x12028 \<and>
           heap_inv s' (bs @ [(0x11028, 3024, True), (0x11BF8, 1072, False)]) (fl @ [0x11BF8]) \<and>
           no_adj_free (bs @ [(0x11028, 3024, True), (0x11BF8, 1072, False)]))"
    by (simp add: Let_def v)
  then have "(\<exists>s1. extend_heap 4096 heap_one = Inr (0x11028, s1) \<and>
           heap_struct s1 (bs @ [(0x11028, 4096, False)]) (fl @ [0x11028])) \<and>
        (\<exists>s'. malloc 3000 heap_one = Some (Inr (0x11030, s')) \<and> mem_brk s' = 0x12028 \<and>
           heap_inv s' (bs @ [(0x11028, 3024, True), (0x11BF8, 1072, False)]) (fl @ [0x11BF8]))"
    by blast
  with hi have "\<exists>bs fl. heap_inv heap_one bs fl \<and>
      (\<exists>s1. extend_heap 4096 heap_one = Inr (0x11028, s1) \<and>
         heap_struct s1 (bs @ [(0x11028, 4096, False)]) (fl @ [0x11028])) \<and>
      (\<exists>s'. malloc 3000 heap_one = Some (Inr (0x11030, s')) \<and> mem_brk s' = 0x12028 \<and>
         heap_inv s' (bs @ [(0x11028, 3024, True), (0x11BF8, 1072, False)]) (fl @ [0x11BF8]))"
    by blast
  with reachable_heap_one fr c find_fit_heap_one room_heap_one show ?thesis by simp
qed

text \<open>
  Against Claim C1 as stated. In \<open>heap_one\<close> the last block, at \<open>0x10808\<close>, is free, has
  2080 bytes and ends at the heap top. \<^verbatim>\<open>malloc(3000)\<close> finds no fit and extends the
  heap by 4096 bytes. Had the new block been coalesced with its free predecessor, the
  request would have been placed at \<open>0x10808\<close>; the code returns the payload \<open>0x11030\<close>
  of a block at the old heap top, and the predecessor is still a free block of 2080 bytes.
\<close>

theorem extend_heap_no_coalesce_counterexample:
  "reachable heap_one {0x10030} \<and>
   get_size heap_one 0x10808 = Inr 2080 \<and> get_alloc heap_one 0x10808 = Inr False \<and>
   get_next_block heap_one 0x10808 = Inr (mem_brk heap_one) \<and>
   find_fit heap_one (round_up (3000 + dsize) dsize) = Some (Inr 0) \<and>
   malloc 3000 heap_one = Some (Inr (0x11030, heap_two)) \<and>
   header_to_payload (mem_brk heap_one) = 0x11030 \<and>
   get_size heap_two 0x10808 = Inr 2080 \<and> get_alloc heap_two 0x10808 = Inr False \<and>
   get_next_block heap_two 0x10808 = Inr (mem_brk heap_one) \<and>
   get_alloc heap_two (mem_brk heap_one) = Inr True"
proof -
  have "get_size heap_one 0x10808 = Inr 2080 \<and> get_alloc heap_one 0x10808 = Inr False \<and>
        get_next_block heap_one 0x10808 = Inr (mem_brk heap_one) \<and>
        header_to_payload (mem_brk heap_one) = 0x11030"
    by (simp add: model_defs heap_one_def)
  moreover have "get_size heap_two 0x10808 = Inr 2080 \<and> get_alloc heap_two 0x10808 = Inr False \<and>
        get_next_block heap_two 0x10808 = Inr (mem_brk heap_one) \<and>
        get_alloc heap_two (mem_brk heap_one) = Inr True"
    by (simp add: model_defs heap_one_def heap_two_def)
  ultimately show ?thesis
    using reachable_heap_one find_fit_heap_one malloc_heap_one by simp
qed

section \<open>Alignment\<close>

text \<open>
  Claim C2. Every payload address that \<^verbatim>\<open>malloc\<close> returns is a multiple of 16, and
  \<^verbatim>\<open>aligned\<close> holds of it. This holds in every reachable state, for every size
  (the null pointer, returned on failure, is a multiple of 16 too).
\<close>

theorem malloc_aligned:
  assumes "reachable s A" and "malloc sz s = Some (Inr (p, s'))"
  shows "unat p mod 16 = 0 \<and> aligned p"
proof -
  have "unat p mod 16 = 0"
  proof -
    from reachable_ok[OF assms(1)]
    consider "fresh s" | bs fl where "heap_inv s bs fl" by (auto simp: heap_ok_def)
    then show ?thesis
    proof cases
      case 1
      from malloc_fresh[OF 1 assms(2)] show ?thesis
        by (auto dest: malloc_aligned_inv)
    next
      case 2
      from malloc_aligned_inv[OF 2 assms(2)] show ?thesis .
    qed
  qed
  then show ?thesis by (simp add: aligned_and15 and15_iff)
qed

theorem malloc_aligned_witness:
  "reachable heap_one {0x10030} \<and> malloc 3000 heap_one = Some (Inr (0x11030, heap_two)) \<and>
   unat (0x11030 :: addr) mod 16 = 0 \<and> aligned 0x11030"
  using malloc_aligned[OF reachable_heap_one malloc_heap_one] reachable_heap_one malloc_heap_one
  by simp

section \<open>Boundary tags\<close>

text \<open>
  Claim C3, as the code has it. \<^verbatim>\<open>write_block\<close> writes a footer for allocated and
  for free blocks alike. After every sequence of public operations that keeps the contract
  of the interface, in an initialised heap every block of the chain, allocated or free,
  carries in its last word a footer equal to its header, the encoding of its size and of
  its allocation flag; the chain \<open>bs\<close> tiles the heap from the first block after
  the root up to the heap top.
\<close>

theorem footer_of_every_block:
  assumes "reachable s A" and "free_root s \<noteq> 0"
  shows "\<exists>bs fl. heap_inv s bs fl \<and> A = payloads bs \<and>
           chain (unat (mem_start s) + 40) bs (unat (mem_brk s)) \<and>
           (\<forall>(p, n, al) \<in> set bs.
              load s (w64 p) = Inr (pack (w64 n) al) \<and>
              load s (w64 (p + n - 8)) = Inr (pack (w64 n) al))"
proof -
  from reachable_inv[OF assms] obtain bs fl where hi: "heap_inv s bs fl" and A: "A = payloads bs"
    by blast
  note hs = heap_inv_struct[OF hi]
  have "load s (w64 p) = Inr (pack (w64 n) al) \<and> load s (w64 (p + n - 8)) = Inr (pack (w64 n) al)"
    if "(p, n, al) \<in> set bs" for p n al
    using header_read(1)[OF hs that] footer_read[OF hs that] by simp
  with hi A heap_struct_chain[OF hs] show ?thesis by (intro exI[of _ bs] exI[of _ fl]) auto
qed

theorem footer_of_every_block_witness:
  "reachable heap_two {0x10030, 0x11030} \<and> free_root heap_two \<noteq> 0 \<and>
   (\<exists>bs fl. heap_inv heap_two bs fl \<and> {0x10030, 0x11030} = payloads bs \<and>
      chain (unat (mem_start heap_two) + 40) bs (unat (mem_brk heap_two)) \<and>
      (\<forall>(p, n, al) \<in> set bs.
         load heap_two (w64 p) = Inr (pack (w64 n) al) \<and>
         load heap_two (w64 (p + n - 8)) = Inr (pack (w64 n) al)))"
proof -
  have fr: "free_root heap_two \<noteq> 0" by (simp add: heap_two_def)
  from footer_of_every_block[OF reachable_heap_two fr] reachable_heap_two fr
  show ?thesis by simp
qed

text \<open>
  Against Claim C3 as stated. In the fresh region the word at \<open>0x10800\<close> is 0. After
  \<^verbatim>\<open>malloc(2000)\<close> the block at \<open>0x10028\<close> is allocated and has 2016 bytes; its
  last word, at \<open>0x10800\<close>, is a footer equal to its header, and its payload size is
  the size less the 16 bytes of header and footer.
\<close>

theorem allocated_footer_counterexample:
  "malloc 2000 (fresh_heap 0x10000 0x20000) = Some (Inr (0x10030, heap_one)) \<and>
   mem (fresh_heap 0x10000 0x20000) 0x10800 = 0 \<and>
   get_alloc heap_one 0x10028 = Inr True \<and> get_size heap_one 0x10028 = Inr 2016 \<and>
   load heap_one 0x10028 = Inr (pack 2016 True) \<and>
   load heap_one (0x10028 + 2016 - 8) = Inr (pack 2016 True) \<and>
   get_payload_size heap_one 0x10028 = Inr 2000"
proof -
  have "mem (fresh_heap 0x10000 0x20000) 0x10800 = 0" by (simp add: fresh_heap_def)
  moreover have "get_alloc heap_one 0x10028 = Inr True \<and> get_size heap_one 0x10028 = Inr 2016 \<and>
     load heap_one 0x10028 = Inr (pack 2016 True) \<and>
     load heap_one (0x10028 + 2016 - 8) = Inr (pack 2016 True) \<and>
     get_payload_size heap_one 0x10028 = Inr 2000"
    by (simp add: model_defs heap_one_def)
  ultimately show ?thesis using malloc_fresh_heap by simp
qed

section \<open>First fit\<close>

text \<open>
  Claim C4. In a heap whose free list holds the nodes \<open>fl\<close>, in the order of the
  \<^verbatim>\<open>next\<close> pointers from the root, \<^verbatim>\<open>find_fit\<close> returns the first node of
  \<open>fl\<close> whose size, read from its header, is at least \<open>asize\<close>, and the null pointer
  when there is none. \<^verbatim>\<open>add_to_list\<close> inserts at the end of the list, so the order
  of the list is the order of insertion, whatever the addresses.
\<close>

theorem find_fit_first_fit:
  assumes "heap_struct s bs fl"
  shows "find_fit s asize =
           Some (Inr (case find (\<lambda>q. asize \<le> extract_size (mem s (w64 q))) fl of
                        None \<Rightarrow> 0 | Some q \<Rightarrow> w64 q)) \<and>
         (\<forall>q \<in> set fl. get_size s (w64 q) = Inr (extract_size (mem s (w64 q))) \<and> w64 q \<noteq> 0) \<and>
         (\<forall>x. x \<in> free_pos bs \<and> x \<notin> set fl \<longrightarrow>
            (\<exists>s'. add_to_list (w64 x) s = Inr s' \<and> heap_struct s' bs (fl @ [x])))"
proof -
  have "get_size s (w64 q) = Inr (extract_size (mem s (w64 q))) \<and> w64 q \<noteq> 0" if "q \<in> set fl" for q
  proof -
    from that heap_struct_fl(2)[OF assms] obtain n where b: "(q, n, False) \<in> set bs"
      by (auto dest: free_posD)
    note g = heap_struct_block[OF assms b]
    from g have n: "n < 2 ^ 64" by simp
    from header_read(2)[OF assms b] g(7) g(4) n block_in_heap(2)[OF assms b]
    show ?thesis by (simp add: extract_size_w64)
  qed
  moreover have "\<exists>s'. add_to_list (w64 x) s = Inr s' \<and> heap_struct s' bs (fl @ [x])"
    if "x \<in> free_pos bs" "x \<notin> set fl" for x
    using add_to_list_struct[OF assms that] by blast
  ultimately show ?thesis using find_fit_struct[OF assms, of asize] by blast
qed

text \<open>
  In the heap of three free blocks the list holds the block at \<open>0x10078\<close> (64 bytes)
  before the block at \<open>0x10028\<close> (48 bytes): a request of 48 bytes gets the former.
\<close>

theorem find_fit_first_fit_witness:
  "heap_struct (three_blocks False False False)
     [(0x10028, 48, False), (0x10058, 32, False), (0x10078, 64, False)] [0x10078, 0x10028] \<and>
   find_fit (three_blocks False False False) 48 = Some (Inr 0x10078) \<and>
   find_fit (three_blocks False False False) 80 = Some (Inr 0) \<and>
   (\<exists>s'. add_to_list 0x10058 (three_blocks False False False) = Inr s' \<and>
      heap_struct s' [(0x10028, 48, False), (0x10058, 32, False), (0x10078, 64, False)]
        [0x10078, 0x10028, 0x10058])"
proof -
  let ?s = "three_blocks False False False"
  let ?bs = "[(0x10028, 48, False), (0x10058, 32, False), (0x10078, 64, False)] :: blk list"
  from pending_fpf have hs: "heap_struct ?s ?bs [0x10078, 0x10028]"
    by (simp add: pending_def)
  have m: "mem ?s 0x10078 = 64" "mem ?s 0x10028 = 48"
    by (simp_all add: three_blocks_def pack_def)
  have e: "extract_size 64 = 64" "extract_size 48 = 48"
    by (simp_all add: extract_size_def size_mask_def)
  from find_fit_first_fit[OF hs, of 48] have "find_fit ?s 48 = Some (Inr 0x10078)"
    by (simp add: m e w64_def)
  moreover from find_fit_first_fit[OF hs, of 80] have "find_fit ?s 80 = Some (Inr 0)"
    by (simp add: m e w64_def)
  moreover have "\<exists>s'. add_to_list 0x10058 ?s = Inr s' \<and>
      heap_struct s' ?bs [0x10078, 0x10028, 0x10058]"
  proof -
    from find_fit_first_fit[OF hs, of 0]
    have "\<forall>x. x \<in> free_pos ?bs \<and> x \<notin> set [0x10078, 0x10028] \<longrightarrow>
            (\<exists>s'. add_to_list (w64 x) ?s = Inr s' \<and> heap_struct s' ?bs ([0x10078, 0x10028] @ [x]))"
      by blast
    from this[rule_format, of "0x10058"] show ?thesis by (simp add: w64_def)
  qed
  ultimately show ?thesis using hs by simp
qed

section \<open>Coalescing\<close>

text \<open>
  Claim C5. \<^verbatim>\<open>coalesce\<close> is called on a block at \<open>p\<close> of \<open>n\<close> bytes that is
  marked free and is not in the free list, with the chain \<open>xs\<close> before it and the chain
  \<open>ys\<close> after it. When both neighbours are free, both leave the free list, the merged
  block of the three sizes is written at the address of the previous block and is appended
  to the list. When only the previous block is free, the two are merged at its address;
  when only the next block is free, the two are merged at \<open>p\<close>; when no neighbour is
  free (or there is none), the block is appended alone. In each case the result satisfies
  the invariant and the list holds no block twice.
\<close>

theorem coalesce_cases:
  "(pending s (xs @ [(pp, pn, False)]) p n ((np, nn, False) # ys) fl \<longrightarrow>
      (\<exists>s'. coalesce (w64 p) s = Inr (w64 pp, s') \<and>
         heap_inv s' (xs @ (pp, pn + n + nn, False) # ys) (remove1 np (remove1 pp fl) @ [pp]) \<and>
         distinct (remove1 np (remove1 pp fl) @ [pp]))) \<and>
   (pending s (xs @ [(pp, pn, False)]) p n ys fl \<and> (ys = [] \<or> snd (snd (hd ys))) \<longrightarrow>
      (\<exists>s'. coalesce (w64 p) s = Inr (w64 pp, s') \<and>
         heap_inv s' (xs @ (pp, pn + n, False) # ys) (remove1 pp fl @ [pp]) \<and>
         distinct (remove1 pp fl @ [pp]))) \<and>
   (pending s xs p n ((np, nn, False) # ys) fl \<and> (xs = [] \<or> snd (snd (last xs))) \<longrightarrow>
      (\<exists>s'. coalesce (w64 p) s = Inr (w64 p, s') \<and>
         heap_inv s' (xs @ (p, n + nn, False) # ys) (remove1 np fl @ [p]) \<and>
         distinct (remove1 np fl @ [p]))) \<and>
   (pending s xs p n ys fl \<and> (xs = [] \<or> snd (snd (last xs))) \<and> (ys = [] \<or> snd (snd (hd ys))) \<longrightarrow>
      (\<exists>s'. coalesce (w64 p) s = Inr (w64 p, s') \<and>
         heap_inv s' (xs @ (p, n, False) # ys) (fl @ [p]) \<and> distinct (fl @ [p])))"
proof (intro conjI impI)
  assume "pending s (xs @ [(pp, pn, False)]) p n ((np, nn, False) # ys) fl"
  from coalesce_case4[OF this] obtain s' where
    "coalesce (w64 p) s = Inr (w64 pp, s')"
    "heap_inv s' (xs @ (pp, pn + n + nn, False) # ys) (remove1 np (remove1 pp fl) @ [pp])"
    by blast
  with heap_inv_list[OF this(2)]
  show "\<exists>s'. coalesce (w64 p) s = Inr (w64 pp, s') \<and>
         heap_inv s' (xs @ (pp, pn + n + nn, False) # ys) (remove1 np (remove1 pp fl) @ [pp]) \<and>
         distinct (remove1 np (remove1 pp fl) @ [pp])" by blast
next
  assume "pending s (xs @ [(pp, pn, False)]) p n ys fl \<and> (ys = [] \<or> snd (snd (hd ys)))"
  then have "pending s (xs @ [(pp, pn, False)]) p n ys fl" "ys = [] \<or> snd (snd (hd ys))"
    by simp_all
  from coalesce_case3[OF this] obtain s' where
    "coalesce (w64 p) s = Inr (w64 pp, s')"
    "heap_inv s' (xs @ (pp, pn + n, False) # ys) (remove1 pp fl @ [pp])"
    by blast
  with heap_inv_list[OF this(2)]
  show "\<exists>s'. coalesce (w64 p) s = Inr (w64 pp, s') \<and>
         heap_inv s' (xs @ (pp, pn + n, False) # ys) (remove1 pp fl @ [pp]) \<and>
         distinct (remove1 pp fl @ [pp])" by blast
next
  assume "pending s xs p n ((np, nn, False) # ys) fl \<and> (xs = [] \<or> snd (snd (last xs)))"
  then have "pending s xs p n ((np, nn, False) # ys) fl" "xs = [] \<or> snd (snd (last xs))"
    by simp_all
  from coalesce_case2[OF this] obtain s' where
    "coalesce (w64 p) s = Inr (w64 p, s')"
    "heap_inv s' (xs @ (p, n + nn, False) # ys) (remove1 np fl @ [p])"
    by blast
  with heap_inv_list[OF this(2)]
  show "\<exists>s'. coalesce (w64 p) s = Inr (w64 p, s') \<and>
         heap_inv s' (xs @ (p, n + nn, False) # ys) (remove1 np fl @ [p]) \<and>
         distinct (remove1 np fl @ [p])" by blast
next
  assume "pending s xs p n ys fl \<and> (xs = [] \<or> snd (snd (last xs))) \<and> (ys = [] \<or> snd (snd (hd ys)))"
  then have "pending s xs p n ys fl" "xs = [] \<or> snd (snd (last xs))" "ys = [] \<or> snd (snd (hd ys))"
    by simp_all
  from coalesce_case1[OF this] obtain s' where
    "coalesce (w64 p) s = Inr (w64 p, s')"
    "heap_inv s' (xs @ (p, n, False) # ys) (fl @ [p])"
    by blast
  with heap_inv_list[OF this(2)]
  show "\<exists>s'. coalesce (w64 p) s = Inr (w64 p, s') \<and>
         heap_inv s' (xs @ (p, n, False) # ys) (fl @ [p]) \<and> distinct (fl @ [p])" by blast
qed

text \<open>
  The four cases on the heaps of three blocks, the middle block of 32 bytes at \<open>0x10058\<close>
  being the one to coalesce: with both neighbours free the result is one block of 144
  bytes at \<open>0x10028\<close>, alone in the free list.
\<close>

theorem coalesce_cases_witness:
  "pending (three_blocks False False False) [(0x10028, 48, False)] 0x10058 32
     [(0x10078, 64, False)] [0x10078, 0x10028] \<and>
   (\<exists>s'. coalesce 0x10058 (three_blocks False False False) = Inr (0x10028, s') \<and>
      heap_inv s' [(0x10028, 144, False)] [0x10028]) \<and>
   pending (three_blocks False False True) [(0x10028, 48, False)] 0x10058 32
     [(0x10078, 64, True)] [0x10028] \<and>
   (\<exists>s'. coalesce 0x10058 (three_blocks False False True) = Inr (0x10028, s') \<and>
      heap_inv s' [(0x10028, 80, False), (0x10078, 64, True)] [0x10028]) \<and>
   pending (three_blocks True False False) [(0x10028, 48, True)] 0x10058 32
     [(0x10078, 64, False)] [0x10078] \<and>
   (\<exists>s'. coalesce 0x10058 (three_blocks True False False) = Inr (0x10058, s') \<and>
      heap_inv s' [(0x10028, 48, True), (0x10058, 96, False)] [0x10058]) \<and>
   pending (three_blocks True False True) [(0x10028, 48, True)] 0x10058 32
     [(0x10078, 64, True)] [] \<and>
   (\<exists>s'. coalesce 0x10058 (three_blocks True False True) = Inr (0x10058, s') \<and>
      heap_inv s' [(0x10028, 48, True), (0x10058, 32, False), (0x10078, 64, True)] [0x10058])"
proof -
  have 4: "\<exists>s'. coalesce 0x10058 (three_blocks False False False) = Inr (0x10028, s') \<and>
      heap_inv s' [(0x10028, 144, False)] [0x10028]"
    using coalesce_cases[of "three_blocks False False False" "[]" "0x10028" 48 "0x10058" 32
        "0x10078" 64 "[]" "[0x10078, 0x10028]"] pending_fpf
    by (simp add: w64_def)
  have 3: "\<exists>s'. coalesce 0x10058 (three_blocks False False True) = Inr (0x10028, s') \<and>
      heap_inv s' [(0x10028, 80, False), (0x10078, 64, True)] [0x10028]"
    using coalesce_cases[of "three_blocks False False True" "[]" "0x10028" 48 "0x10058" 32
        "0x10078" 64 "[(0x10078, 64, True)]" "[0x10028]"] pending_fpa
    by (simp add: w64_def)
  have 2: "\<exists>s'. coalesce 0x10058 (three_blocks True False False) = Inr (0x10058, s') \<and>
      heap_inv s' [(0x10028, 48, True), (0x10058, 96, False)] [0x10058]"
    using coalesce_cases[of "three_blocks True False False" "[(0x10028, 48, True)]" "0x10028" 48
        "0x10058" 32 "0x10078" 64 "[]" "[0x10078]"] pending_apf
    by (simp add: w64_def)
  have 1: "\<exists>s'. coalesce 0x10058 (three_blocks True False True) = Inr (0x10058, s') \<and>
      heap_inv s' [(0x10028, 48, True), (0x10058, 32, False), (0x10078, 64, True)] [0x10058]"
    using coalesce_cases[of "three_blocks True False True" "[(0x10028, 48, True)]" "0x10028" 48
        "0x10058" 32 "0x10078" 64 "[(0x10078, 64, True)]" "[]"] pending_apa
    by (simp add: w64_def)
  from 1 2 3 4 pending_fpf pending_fpa pending_apf pending_apa show ?thesis by simp
qed

section \<open>The heap checker\<close>

text \<open>
  Claim C8. \<^verbatim>\<open>mm_checkheap\<close> does not start at the first block after the prologue:
  \<^verbatim>\<open>prologue + 5 * wsize\<close> is 40 words, 320 bytes, above the prologue. In the
  reachable heap \<open>heap_one\<close>, which satisfies the invariant, that address lies in the
  payload of the allocated block; the checker reads the payload word 0 there as a header,
  reports a block smaller than the minimum size and returns false. Started at the first
  block, \<open>0x10028\<close>, the loop reports two adjacent free blocks for the allocated block
  followed by the free block at \<open>0x10808\<close>: the test is
  \<^verbatim>\<open>!curr_alloc || !next_alloc\<close>.
\<close>

theorem checkheap_rejects_valid_heap:
  "reachable heap_one {0x10030} \<and>
   heap_inv heap_one [(0x10028, 2016, True), (0x10808, 2080, False)] [0x10808] \<and>
   prologue heap_one + 8 * (5 * wsize) = 0x10140 \<and>
   mm_checkheap heap_one = Some (Inr (False, [TooSmall 0x10140 0])) \<and>
   checkheap_blocks heap_one 0x10028 =
     Some (Inr (False, [AdjacentFree 0x10028 0x10808 True False]))"
proof -
  have "prologue heap_one + 8 * (5 * wsize) = 0x10140"
    by (simp add: heap_one_def wsize_def)
  moreover have "mm_checkheap heap_one = Some (Inr (False, [TooSmall 0x10140 0]))"
    by (simp add: checkheap_defs model_defs heap_one_def Let_def)
  moreover have "checkheap_blocks heap_one 0x10028 =
      Some (Inr (False, [AdjacentFree 0x10028 0x10808 True False]))"
    by (simp add: checkheap_defs model_defs heap_one_def Let_def)
  ultimately show ?thesis using reachable_heap_one heap_inv_one by simp
qed

end
